theory Spec2Isabelle
  imports Main "HOL-Library.Multiset" "HOL-Library.Finite_Map" "HOL-Library.AList" "HOL-Library.Word"
begin

section \<open>The unindexed MCAP source (McapUnindexedIterableSource)\<close>

text \<open>
  A shallow embedding of \<^verbatim>\<open>McapUnindexedIterableSource\<close>: \<^verbatim>\<open>initialize\<close> with its local
  function \<^verbatim>\<open>processRecord\<close>, \<^verbatim>\<open>messageIterator\<close> and \<^verbatim>\<open>getBackfillMessages\<close>.

  Conventions.
  \<^item> A JavaScript \<^verbatim>\<open>Map\<close> keeps its keys in insertion order and \<^verbatim>\<open>set\<close> on a present key
    replaces the value in place: it is an association list, read with \<^const>\<open>map_of\<close> and
    written with \<^const>\<open>AList.update\<close>. A \<^verbatim>\<open>Map\<close> that is only compared or looked up
    (record metadata) is an \<^typ>\<open>('k, 'v) fmap\<close>, whose equality is the order-insensitive
    one of \<^verbatim>\<open>_.isEqual\<close>.
  \<^item> A \<^verbatim>\<open>throw\<close> is the \<open>Inl\<close> branch of a sum.
  \<^item> \<^verbatim>\<open>structuredClone\<close> is the identity on values.
  \<^item> Identifiers are natural numbers, \<^verbatim>\<open>logTime\<close> and \<^verbatim>\<open>publishTime\<close> (unsigned 64-bit
    \<^verbatim>\<open>bigint\<close>) are natural numbers, a \<^verbatim>\<open>Uint8Array\<close> is a list of bytes, and the
    declared size of a source is an integer number of bytes.
\<close>

subsection \<open>Time values\<close>

type_synonym bytes = "8 word list"

record Time =
  sec :: int
  nsec :: int

text \<open>
  Modelled from the spec: the functions of the package \<^verbatim>\<open>@lichtblick/rostime\<close> that the
  source imports (\<^verbatim>\<open>fromNanoSec\<close>, \<^verbatim>\<open>compare\<close>, \<^verbatim>\<open>isLessThan\<close>, \<^verbatim>\<open>isGreaterThan\<close>,
  \<^verbatim>\<open>isTimeInRangeInclusive\<close>) are not among the source files. A receive time is a
  nanosecond epoch value converted to a structured time of seconds and nanoseconds; times
  are ordered by seconds, then by nanoseconds; a range is inclusive at both ends.
\<close>

definition fromNanoSec :: "nat \<Rightarrow> Time" where
  "fromNanoSec n = \<lparr>sec = int (n div 1000000000), nsec = int (n mod 1000000000)\<rparr>"

definition compare :: "Time \<Rightarrow> Time \<Rightarrow> int" where
  "compare left right =
     (let secDiff = sec left - sec right
      in if secDiff \<noteq> 0 then secDiff else nsec left - nsec right)"

definition isLessThan :: "Time \<Rightarrow> Time \<Rightarrow> bool" where
  "isLessThan t1 t2 = (compare t1 t2 < 0)"

definition isGreaterThan :: "Time \<Rightarrow> Time \<Rightarrow> bool" where
  "isGreaterThan t1 t2 = (compare t1 t2 > 0)"

definition isTimeInRangeInclusive :: "Time \<Rightarrow> Time \<Rightarrow> Time \<Rightarrow> bool" where
  "isTimeInRangeInclusive t start end =
     (if compare start t > 0 \<or> compare end t < 0 then False else True)"

subsection \<open>Records of the container format\<close>

record Schema =
  schema_id :: nat
  schema_name :: string
  schema_encoding :: string
  schema_data :: bytes

record Channel =
  channel_id :: nat
  channel_schemaId :: nat
  channel_topic :: string
  channel_messageEncoding :: string
  channel_metadata :: "(string, string) fmap"

record Message =
  msg_channelId :: nat
  msg_sequence :: nat
  msg_logTime :: nat
  msg_publishTime :: nat
  msg_data :: bytes

text \<open>
  \<^verbatim>\<open>McapTypes.TypedMcapRecord\<close>, the tagged union \<^verbatim>\<open>processRecord\<close> switches on. The record
  kinds the switch sends to \<^verbatim>\<open>default\<close> are \<open>OtherRecord\<close> with their tag.
\<close>

datatype TypedMcapRecord =
    HeaderRecord string string
  | MetadataRecord string "(string, string) fmap"
  | SchemaRecord Schema
  | ChannelRecord Channel
  | MessageRecord Message
  | OtherRecord string

subsection \<open>Message events, alerts and the state of ingestion\<close>

record MessageEvent =
  topic :: string
  receiveTime :: Time
  publishTime :: Time
  message :: bytes
  sizeInBytes :: nat
  schemaName :: string

type_synonym RosDatatypes = "(string \<times> string) list"

record ParsedChannel =
  parsed_datatypes :: RosDatatypes

record ChannelInfo =
  channel :: Channel
  parsedChannel :: ParsedChannel
  info_schemaName :: "string option"
  info_schemaEncoding :: "string option"
  info_schemaData :: "bytes option"

datatype severity = SeverityError | SeverityWarn

record PlayerAlert =
  alert_severity :: severity
  alert_message :: string
  alert_tip :: "string option"
  alert_error :: "string option"

record Metadata =
  md_name :: string
  md_metadata :: "(string, string) fmap"

datatype error =
    FileTooLarge
  | LoadDecompressHandlersFailed string
  | DecoderFailed string
  | DifferingSchemas nat
  | DifferingChannelInfos nat
  | NoPriorSchema nat
  | NoPriorChannelInfo nat
  | InitializationNotCompleted

text \<open>\<^verbatim>\<open>String(n)\<close> for a non-negative integer: its decimal digits.\<close>

definition digitChar :: "nat \<Rightarrow> char" where
  "digitChar d = char_of (48 + d)"

fun showNat :: "nat \<Rightarrow> string" where
  "showNat n = (if n < 10 then [digitChar n] else showNat (n div 10) @ [digitChar (n mod 10)])"

declare showNat.simps [simp del]

fun errorMessage :: "error \<Rightarrow> string" where
  "errorMessage FileTooLarge =
     ''Unable to open unindexed MCAP file; unindexed files are limited to 1GB''"
| "errorMessage (LoadDecompressHandlersFailed m) = m"
| "errorMessage (DecoderFailed m) = m"
| "errorMessage (DifferingSchemas i) = ''differing schemas for id '' @ showNat i"
| "errorMessage (DifferingChannelInfos i) = ''differing channel infos for id '' @ showNat i"
| "errorMessage (NoPriorSchema i) =
     ''Encountered channel with schema id '' @ showNat i @ '' but no prior schema''"
| "errorMessage (NoPriorChannelInfo i) =
     ''message for channel '' @ showNat i @ '' with no prior channel info''"
| "errorMessage InitializationNotCompleted = ''initialization not completed''"

text \<open>
  The capabilities \<^verbatim>\<open>initialize\<close> consumes and does not implement, as parameters:
  \<^verbatim>\<open>parseChannel\<close> of \<^verbatim>\<open>@lichtblick/mcap-support\<close> (it returns a parsed channel or throws
  an error with a message), \<^verbatim>\<open>loadDecompressHandlers\<close> (it may reject) and
  \<^verbatim>\<open>toRFC3339String\<close>.
\<close>

record Capabilities =
  parseChannel :: "string \<Rightarrow> Schema option \<Rightarrow> string + ParsedChannel"
  loadDecompressHandlers :: "string + unit"
  toRFC3339String :: "Time \<Rightarrow> string"

text \<open>The local variables of \<^verbatim>\<open>initialize\<close> that \<^verbatim>\<open>processRecord\<close> closes over.\<close>

record Ingest =
  alerts :: "PlayerAlert list"
  metadata :: "Metadata list"
  channelIdsWithErrors :: "nat set"
  messageCount :: nat
  messagesByChannel :: "(nat \<times> MessageEvent list) list"
  schemasById :: "(nat \<times> Schema) list"
  channelInfoById :: "(nat \<times> ChannelInfo) list"
  startTime :: "Time option"
  endTime :: "Time option"
  profile :: "string option"

definition initialIngest :: Ingest where
  "initialIngest =
     \<lparr>alerts = [], metadata = [], channelIdsWithErrors = {}, messageCount = 0,
      messagesByChannel = [], schemasById = [], channelInfoById = [],
      startTime = None, endTime = None, profile = None\<rparr>"

subsection \<open>processRecord\<close>

definition channelErrorAlert :: "Channel \<Rightarrow> string \<Rightarrow> PlayerAlert" where
  "channelErrorAlert record err =
     \<lparr>alert_severity = SeverityError,
      alert_message = ''Error in topic '' @ channel_topic record @ '' (channel ''
        @ showNat (channel_id record) @ ''): '' @ err,
      alert_tip = None, alert_error = Some err\<rparr>"

definition makeMessageEvent :: "ChannelInfo \<Rightarrow> Message \<Rightarrow> MessageEvent" where
  "makeMessageEvent channelInfo record =
     \<lparr>topic = channel_topic (channel channelInfo),
      receiveTime = fromNanoSec (msg_logTime record),
      publishTime = fromNanoSec (msg_publishTime record),
      message = msg_data record,
      sizeInBytes = length (msg_data record),
      schemaName = (case info_schemaName channelInfo of Some n \<Rightarrow> n | None \<Rightarrow> [])\<rparr>"

fun processRecord :: "Capabilities \<Rightarrow> Ingest \<Rightarrow> TypedMcapRecord \<Rightarrow> error + Ingest" where
  "processRecord env st (OtherRecord tag) = Inr st"
| "processRecord env st (HeaderRecord prof library) = Inr (st\<lparr>profile := Some prof\<rparr>)"
| "processRecord env st (MetadataRecord nm md) =
     Inr (st\<lparr>metadata := metadata st @ [\<lparr>md_name = nm, md_metadata = md\<rparr>]\<rparr>)"
| "processRecord env st (SchemaRecord record) =
     (case map_of (schemasById st) (schema_id record) of
        Some existingSchema \<Rightarrow>
          if existingSchema \<noteq> record then Inl (DifferingSchemas (schema_id record))
          else Inr (st\<lparr>schemasById := AList.update (schema_id record) record (schemasById st)\<rparr>)
      | None \<Rightarrow>
          Inr (st\<lparr>schemasById := AList.update (schema_id record) record (schemasById st)\<rparr>))"
| "processRecord env st (ChannelRecord record) =
     (case map_of (channelInfoById st) (channel_id record) of
        Some existingInfo \<Rightarrow>
          if channel existingInfo \<noteq> record then Inl (DifferingChannelInfos (channel_id record))
          else Inr st
      | None \<Rightarrow>
          if channel_id record \<in> channelIdsWithErrors st then Inr st
          else
            let schema = map_of (schemasById st) (channel_schemaId record) in
            if channel_schemaId record \<noteq> 0 \<and> schema = None
            then Inl (NoPriorSchema (channel_schemaId record))
            else
              (case parseChannel env (channel_messageEncoding record) schema of
                 Inr parsed \<Rightarrow>
                   Inr (st\<lparr>channelInfoById :=
                              AList.update (channel_id record)
                                \<lparr>channel = record, parsedChannel = parsed,
                                 info_schemaName = map_option schema_name schema,
                                 info_schemaEncoding = map_option schema_encoding schema,
                                 info_schemaData = map_option schema_data schema\<rparr>
                                (channelInfoById st),
                            messagesByChannel :=
                              AList.update (channel_id record) [] (messagesByChannel st)\<rparr>)
               | Inl err \<Rightarrow>
                   Inr (st\<lparr>channelIdsWithErrors := insert (channel_id record) (channelIdsWithErrors st),
                            alerts := alerts st @ [channelErrorAlert record err]\<rparr>)))"
| "processRecord env st (MessageRecord record) =
     (let channelId = msg_channelId record in
      case (map_of (channelInfoById st) channelId, map_of (messagesByChannel st) channelId) of
        (Some channelInfo, Some messages) \<Rightarrow>
          let rt = fromNanoSec (msg_logTime record) in
          Inr (st\<lparr>messageCount := messageCount st + 1,
                   startTime :=
                     (case startTime st of
                        None \<Rightarrow> Some rt
                      | Some s \<Rightarrow> if isLessThan rt s then Some rt else Some s),
                   endTime :=
                     (case endTime st of
                        None \<Rightarrow> Some rt
                      | Some e \<Rightarrow> if isGreaterThan rt e then Some rt else Some e),
                   messagesByChannel :=
                     AList.update channelId (messages @ [makeMessageEvent channelInfo record])
                       (messagesByChannel st)\<rparr>)
      | _ \<Rightarrow>
          if channelId \<in> channelIdsWithErrors st then Inr st
          else Inl (NoPriorChannelInfo channelId))"

subsection \<open>The stream and the read loop\<close>

text \<open>
  The decoder \<^verbatim>\<open>McapStreamReader\<close> is a collaborator: a chunk of the stream is given by the
  results of the calls of \<^verbatim>\<open>reader.nextRecord()\<close> that follow its \<^verbatim>\<open>append\<close>, each a
  record or a thrown error (malformed framing, missing decompression handler), up to the
  call that returns \<^verbatim>\<open>undefined\<close>. The stream counts the calls of \<^verbatim>\<open>read()\<close> made on it.
\<close>

datatype NextRecord = Decoded TypedMcapRecord | DecoderThrows string

type_synonym Chunk = "NextRecord list"

record ReadableStream =
  pending :: "Chunk list"
  reads :: nat

fun processChunk :: "Capabilities \<Rightarrow> Ingest \<Rightarrow> Chunk \<Rightarrow> error + Ingest" where
  "processChunk env st [] = Inr st"
| "processChunk env st (DecoderThrows m # rest) = Inl (DecoderFailed m)"
| "processChunk env st (Decoded record # rest) =
     (case processRecord env st record of
        Inl e \<Rightarrow> Inl e
      | Inr st' \<Rightarrow> processChunk env st' rest)"

fun readLoop ::
  "Capabilities \<Rightarrow> Ingest \<Rightarrow> Chunk list \<Rightarrow> nat \<Rightarrow> (error + Ingest) \<times> ReadableStream" where
  "readLoop env st [] n = (Inr st, \<lparr>pending = [], reads = n + 1\<rparr>)"
| "readLoop env st (c # cs) n =
     (case processChunk env st c of
        Inl e \<Rightarrow> (Inl e, \<lparr>pending = cs, reads = n + 1\<rparr>)
      | Inr st' \<Rightarrow> readLoop env st' cs (n + 1))"

subsection \<open>What the reader delivers\<close>

text \<open>
  \<^verbatim>\<open>processRecord\<close> sees only what \<^verbatim>\<open>reader.nextRecord()\<close> returns. The reader belongs to
  the package \<^verbatim>\<open>@mcap/core\<close> and is not among the source files; what it does to the records
  of a file before it returns them is stated here as far as it bears on the registry. A
  file is the sequence of its records, an item that cannot be parsed (malformed framing, a
  compressed part without a handler) standing as \<open>Malformed\<close>. The reader keeps the
  Channel records it has returned, by id, and throws instead of returning
  \<^item> a Channel record that differs from the Channel record it returned earlier under the
    same id,
  \<^item> a Message record whose channel id it has returned no Channel record for,
  \<^item> an item that cannot be parsed.
  Every other record is returned as it is. After a throw no further call is made.
\<close>

datatype FileItem = FileRecord TypedMcapRecord | Malformed string

fun acceptRecord :: "(nat \<rightharpoonup> Channel) \<Rightarrow> TypedMcapRecord \<Rightarrow> string + (nat \<rightharpoonup> Channel)" where
  "acceptRecord channelsById (ChannelRecord c) =
     (case channelsById (channel_id c) of
        Some existing \<Rightarrow>
          if existing \<noteq> c
          then Inl (''Channel record for id '' @ showNat (channel_id c) @ '' (topic: ''
                    @ channel_topic c
                    @ '') differs from previous channel record of the same id.'')
          else Inr (channelsById(channel_id c \<mapsto> c))
      | None \<Rightarrow> Inr (channelsById(channel_id c \<mapsto> c)))"
| "acceptRecord channelsById (MessageRecord m) =
     (case channelsById (msg_channelId m) of
        None \<Rightarrow> Inl (''Encountered message on channel '' @ showNat (msg_channelId m)
                     @ '' without prior channel record'')
      | Some c \<Rightarrow> Inr channelsById)"
| "acceptRecord channelsById r = Inr channelsById"

fun readerResults :: "(nat \<rightharpoonup> Channel) \<Rightarrow> FileItem list \<Rightarrow> Chunk" where
  "readerResults channelsById [] = []"
| "readerResults channelsById (Malformed m # rest) = [DecoderThrows m]"
| "readerResults channelsById (FileRecord r # rest) =
     (case acceptRecord channelsById r of
        Inl m \<Rightarrow> [DecoderThrows m]
      | Inr channelsById' \<Rightarrow> Decoded r # readerResults channelsById' rest)"

text \<open>The channels the reader holds after a file, if it has not thrown.\<close>

fun readerAfter :: "(nat \<rightharpoonup> Channel) \<Rightarrow> FileItem list \<Rightarrow> (nat \<rightharpoonup> Channel) option" where
  "readerAfter channelsById [] = Some channelsById"
| "readerAfter channelsById (Malformed m # rest) = None"
| "readerAfter channelsById (FileRecord r # rest) =
     (case acceptRecord channelsById r of
        Inl m \<Rightarrow> None
      | Inr channelsById' \<Rightarrow> readerAfter channelsById' rest)"

subsection \<open>initialize\<close>

record TopicWithDecodingInfo =
  topic_name :: string
  topic_messageEncoding :: string
  topic_schemaName :: "string option"
  topic_schemaData :: "bytes option"
  topic_schemaEncoding :: "string option"

record Initialization =
  init_start :: Time
  init_end :: Time
  init_topics :: "TopicWithDecodingInfo list"
  init_datatypes :: RosDatatypes
  init_profile :: "string option"
  init_alerts :: "PlayerAlert list"
  init_publishersByTopic :: "(string \<times> string set) list"
  init_topicStats :: "(string \<times> nat) list"
  init_metadata :: "Metadata list"

text \<open>
  The source object: its options and its three private fields, unset until
  \<^verbatim>\<open>initialize\<close> has read the whole stream.
\<close>

record Source =
  options_size :: int
  options_stream :: ReadableStream
  msgEventsByChannel :: "(nat \<times> MessageEvent list) list option"
  src_start :: "Time option"
  src_end :: "Time option"

text \<open>What the loop over \<^verbatim>\<open>channelInfoById.values()\<close> accumulates.\<close>

record Summary =
  sum_topics :: "TopicWithDecodingInfo list"
  sum_topicStats :: "(string \<times> nat) list"
  sum_datatypes :: RosDatatypes
  sum_publishersByTopic :: "(string \<times> string set) list"

definition emptySummary :: Summary where
  "emptySummary =
     \<lparr>sum_topics = [], sum_topicStats = [], sum_datatypes = [], sum_publishersByTopic = []\<rparr>"

definition summarizeChannel ::
  "(nat \<times> MessageEvent list) list \<Rightarrow> Summary \<Rightarrow> ChannelInfo \<Rightarrow> Summary" where
  "summarizeChannel byChannel acc info =
     (let ch = channel info;
          publisherId =
            (case fmlookup (channel_metadata ch) ''callerid'' of
               Some c \<Rightarrow> c
             | None \<Rightarrow> showNat (channel_id ch));
          publishers =
            (case map_of (sum_publishersByTopic acc) (channel_topic ch) of
               Some ps \<Rightarrow> ps
             | None \<Rightarrow> {})
      in \<lparr>sum_topics = sum_topics acc @
             [\<lparr>topic_name = channel_topic ch,
               topic_messageEncoding = channel_messageEncoding ch,
               topic_schemaName = info_schemaName info,
               topic_schemaData = info_schemaData info,
               topic_schemaEncoding = info_schemaEncoding info\<rparr>],
          sum_topicStats =
            (case map_of byChannel (channel_id ch) of
               Some msgs \<Rightarrow> AList.update (channel_topic ch) (length msgs) (sum_topicStats acc)
             | None \<Rightarrow> sum_topicStats acc),
          sum_datatypes =
            foldl (\<lambda>dts (n, d). AList.update n d dts) (sum_datatypes acc)
              (parsed_datatypes (parsedChannel info)),
          sum_publishersByTopic =
            AList.update (channel_topic ch) (insert publisherId publishers)
              (sum_publishersByTopic acc)\<rparr>)"

definition summarize :: "Ingest \<Rightarrow> Summary" where
  "summarize st =
     foldl (summarizeChannel (messagesByChannel st)) emptySummary (map snd (channelInfoById st))"

definition DURATION_YEAR_SEC :: int where
  "DURATION_YEAR_SEC = 365 * 24 * 60 * 60"

text \<open>
  \<^verbatim>\<open>toSec(subtract(end, start)) > DURATION_YEAR_SEC\<close>, in exact arithmetic on nanoseconds
  (the rounding of the source's floating-point seconds is not modelled).
\<close>

definition durationExceedsYear :: "Time \<Rightarrow> Time \<Rightarrow> bool" where
  "durationExceedsYear s e =
     ((sec e - sec s) * 1000000000 + (nsec e - nsec s) > DURATION_YEAR_SEC * 1000000000)"

definition finalAlerts :: "Capabilities \<Rightarrow> Ingest \<Rightarrow> Time \<Rightarrow> Time \<Rightarrow> PlayerAlert list" where
  "finalAlerts env st s e =
     alerts st
     @ (if durationExceedsYear s e
        then [\<lparr>alert_severity = SeverityWarn,
               alert_message = ''This file has an abnormally long duration.'',
               alert_tip = Some (''The start '' @ toRFC3339String env s @ '' and end ''
                 @ toRFC3339String env e @ '' are greater than a year.''),
               alert_error = None\<rparr>]
        else [])
     @ (if messageCount st = 0
        then [\<lparr>alert_severity = SeverityWarn,
               alert_message = ''This file contains no messages.'',
               alert_tip = None, alert_error = None\<rparr>]
        else [\<lparr>alert_severity = SeverityWarn,
               alert_message =
                 ''This file is unindexed. Unindexed files may have degraded performance.'',
               alert_tip = Some
                 ''See the MCAP spec: https://mcap.dev/specification/index.html#summary-section'',
               alert_error = None\<rparr>])"

definition finish :: "Capabilities \<Rightarrow> Ingest \<Rightarrow> Initialization" where
  "finish env st =
     (let summary = summarize st;
          s = (case startTime st of Some t \<Rightarrow> t | None \<Rightarrow> \<lparr>sec = 0, nsec = 0\<rparr>);
          e = (case endTime st of Some t \<Rightarrow> t | None \<Rightarrow> \<lparr>sec = 0, nsec = 0\<rparr>)
      in \<lparr>init_start = s, init_end = e,
          init_topics = sum_topics summary,
          init_datatypes = sum_datatypes summary,
          init_profile = profile st,
          init_alerts = finalAlerts env st s e,
          init_publishersByTopic = sum_publishersByTopic summary,
          init_topicStats = sum_topicStats summary,
          init_metadata = metadata st\<rparr>)"

text \<open>
  \<^verbatim>\<open>initialize\<close> returns its result and the source object as it leaves it: the stream with
  the reads made on it, and the three private fields, which are assigned only after the
  read loop has ended without a throw. It is the one call the source object is made for:
  the lock that \<^verbatim>\<open>getReader()\<close> takes on the stream, which makes a second call throw, is not
  modelled.
\<close>

definition initialize :: "Capabilities \<Rightarrow> Source \<Rightarrow> (error + Initialization) \<times> Source" where
  "initialize env src =
     (if options_size src > 1024 * 1024 * 1024 then (Inl FileTooLarge, src)
      else
        case loadDecompressHandlers env of
          Inl m \<Rightarrow> (Inl (LoadDecompressHandlersFailed m), src)
        | Inr decompressHandlers \<Rightarrow>
            (case readLoop env initialIngest (pending (options_stream src))
                    (reads (options_stream src)) of
               (Inl e, stream') \<Rightarrow> (Inl e, src\<lparr>options_stream := stream'\<rparr>)
             | (Inr st, stream') \<Rightarrow>
                 let result = finish env st
                 in (Inr result,
                     src\<lparr>options_stream := stream',
                         msgEventsByChannel := Some (messagesByChannel st),
                         src_start := Some (init_start result),
                         src_end := Some (init_end result)\<rparr>)))"

subsection \<open>messageIterator\<close>

record IteratorResult =
  connectionId :: nat
  msgEvent :: MessageEvent

record MessageIteratorArgs =
  iter_topics :: "string set"
  iter_start :: "Time option"
  iter_end :: "Time option"

text \<open>
  \<^verbatim>\<open>Array.prototype.sort\<close> with a comparator: the sort is stable, and the comparator of
  the source is a total preorder, so the result is the one stable ordering; it is computed
  here by insertion, an element going before the first later element that is not smaller.
\<close>

fun insertBy :: "('a \<Rightarrow> 'a \<Rightarrow> int) \<Rightarrow> 'a \<Rightarrow> 'a list \<Rightarrow> 'a list" where
  "insertBy cmp x [] = [x]"
| "insertBy cmp x (y # ys) = (if cmp x y \<le> 0 then x # y # ys else y # insertBy cmp x ys)"

definition sortBy :: "('a \<Rightarrow> 'a \<Rightarrow> int) \<Rightarrow> 'a list \<Rightarrow> 'a list" where
  "sortBy cmp xs = foldr (insertBy cmp) xs []"

definition compareResults :: "IteratorResult \<Rightarrow> IteratorResult \<Rightarrow> int" where
  "compareResults a b = compare (receiveTime (msgEvent a)) (receiveTime (msgEvent b))"

definition scanChannel ::
  "string set \<Rightarrow> Time \<Rightarrow> Time \<Rightarrow> nat \<times> MessageEvent list \<Rightarrow> IteratorResult list" where
  "scanChannel topics start end entry =
     map (\<lambda>ev. \<lparr>connectionId = fst entry, msgEvent = ev\<rparr>)
       (filter (\<lambda>ev. isTimeInRangeInclusive (receiveTime ev) start end \<and> topic ev \<in> topics)
          (snd entry))"

text \<open>
  The generator reads the fields of the source and writes none; the source object is
  threaded through, so that a second call is a call on the object the first one left.
\<close>

definition messageIterator ::
  "Source \<Rightarrow> MessageIteratorArgs \<Rightarrow> (error + IteratorResult list) \<times> Source" where
  "messageIterator src args =
     (case msgEventsByChannel src of
        None \<Rightarrow> (Inl InitializationNotCompleted, src)
      | Some byChannel \<Rightarrow>
          (let topics = iter_topics args;
               start = (case iter_start args of Some t \<Rightarrow> Some t | None \<Rightarrow> src_start src);
               end = (case iter_end args of Some t \<Rightarrow> Some t | None \<Rightarrow> src_end src)
           in if topics = {} then (Inr [], src)
              else
                (case (start, end) of
                   (Some s, Some e) \<Rightarrow>
                     (Inr (sortBy compareResults
                             (concat (map (scanChannel topics s e) byChannel))),
                      src)
                 | _ \<Rightarrow> (Inr [], src))))"

subsection \<open>getBackfillMessages\<close>

record GetBackfillMessagesArgs =
  backfill_topics :: "string set"
  backfill_time :: Time

definition backfillStep ::
  "GetBackfillMessagesArgs \<Rightarrow> (string \<times> MessageEvent) list \<Rightarrow> MessageEvent
     \<Rightarrow> (string \<times> MessageEvent) list" where
  "backfillStep args msgEventsByTopic ev =
     (if compare (receiveTime ev) (backfill_time args) \<le> 0 \<and> topic ev \<in> backfill_topics args
      then AList.update (topic ev) ev msgEventsByTopic
      else msgEventsByTopic)"

definition getBackfillMessages ::
  "Source \<Rightarrow> GetBackfillMessagesArgs \<Rightarrow> (error + MessageEvent list) \<times> Source" where
  "getBackfillMessages src args =
     (case msgEventsByChannel src of
        None \<Rightarrow> (Inl InitializationNotCompleted, src)
      | Some byChannel \<Rightarrow>
          (Inr (map snd (foldl (backfillStep args) [] (concat (map snd byChannel)))), src))"

subsection \<open>Invariants of ingestion\<close>

text \<open>
  What every state reached by \<^verbatim>\<open>processRecord\<close> from the initial one satisfies. The
  registry: a channel has an info exactly when it has a bucket, bucket keys are distinct,
  an errored id is not registered, an info is stored under its channel's id, and the
  schema a registered channel names is known. The buckets: an event carries the topic of
  the channel of its bucket, and its receive time lies within the running bounds.
\<close>

definition registryInv :: "Ingest \<Rightarrow> bool" where
  "registryInv st \<longleftrightarrow>
     (\<forall>k. (map_of (channelInfoById st) k = None) = (map_of (messagesByChannel st) k = None))
     \<and> distinct (map fst (messagesByChannel st))
     \<and> distinct (map fst (channelInfoById st))
     \<and> (\<forall>k\<in>channelIdsWithErrors st. map_of (channelInfoById st) k = None)
     \<and> (\<forall>k ci. map_of (channelInfoById st) k = Some ci \<longrightarrow> channel_id (channel ci) = k)
     \<and> (\<forall>k ci. map_of (channelInfoById st) k = Some ci \<longrightarrow>
           channel_schemaId (channel ci) \<noteq> 0 \<longrightarrow>
           map_of (schemasById st) (channel_schemaId (channel ci)) \<noteq> None)"

definition bucketsInv :: "Ingest \<Rightarrow> bool" where
  "bucketsInv st \<longleftrightarrow>
     (\<forall>k es ev. map_of (messagesByChannel st) k = Some es \<longrightarrow> ev \<in> set es \<longrightarrow>
        (\<exists>ci. map_of (channelInfoById st) k = Some ci \<and> topic ev = channel_topic (channel ci))
        \<and> (\<exists>s e. startTime st = Some s \<and> endTime st = Some e
              \<and> compare s (receiveTime ev) \<le> 0 \<and> compare (receiveTime ev) e \<le> 0))"

subsection \<open>The message events of a file\<close>

text \<open>
  The ingested message events of a file, stated on the records of the file and not on
  the buckets: one event for each Message record whose channel is registered by
  the end of ingestion, built from the record and the info of its channel, in file order.
  \<open>bucketEvents\<close> lists what the buckets hold, in scan order, as the iterator would yield
  it, and \<open>wanted\<close> is the test the iterator applies to an event.
\<close>

fun ingestedEvent :: "Ingest \<Rightarrow> NextRecord \<Rightarrow> IteratorResult list" where
  "ingestedEvent st (Decoded (MessageRecord m)) =
     (case map_of (channelInfoById st) (msg_channelId m) of
        Some info \<Rightarrow> [\<lparr>connectionId = msg_channelId m, msgEvent = makeMessageEvent info m\<rparr>]
      | None \<Rightarrow> [])"
| "ingestedEvent st item = []"

definition ingestedEvents :: "Ingest \<Rightarrow> Chunk \<Rightarrow> IteratorResult list" where
  "ingestedEvents st items = concat (map (ingestedEvent st) items)"

definition ingested :: "Capabilities \<Rightarrow> Chunk \<Rightarrow> IteratorResult list" where
  "ingested env items =
     (case processChunk env initialIngest items of
        Inl e \<Rightarrow> []
      | Inr st \<Rightarrow> ingestedEvents st items)"

definition bucketEvents :: "(nat \<times> MessageEvent list) list \<Rightarrow> IteratorResult list" where
  "bucketEvents byChannel =
     concat (map (\<lambda>entry. map (\<lambda>ev. \<lparr>connectionId = fst entry, msgEvent = ev\<rparr>) (snd entry))
               byChannel)"

definition wanted :: "string set \<Rightarrow> Time \<Rightarrow> Time \<Rightarrow> IteratorResult \<Rightarrow> bool" where
  "wanted topics start end r =
     (isTimeInRangeInclusive (receiveTime (msgEvent r)) start end \<and> topic (msgEvent r) \<in> topics)"

subsection \<open>Example inputs\<close>

text \<open>
  A decoding-plan builder that understands the message encoding \<^verbatim>\<open>json\<close> only, a source
  over a given stream, and the file of the scenario with one schema, one channel on
  \<^verbatim>\<open>/a\<close> and three messages at 5, 1 and 3 nanoseconds.
\<close>

definition sampleCapabilities :: Capabilities where
  "sampleCapabilities =
     \<lparr>parseChannel = (\<lambda>enc schema. if enc = ''json'' then Inr \<lparr>parsed_datatypes = []\<rparr>
                        else Inl (''Unsupported encoding '' @ enc)),
      loadDecompressHandlers = Inr (),
      toRFC3339String = (\<lambda>t. [])\<rparr>"

definition mkSource :: "int \<Rightarrow> Chunk list \<Rightarrow> Source" where
  "mkSource n cs = \<lparr>options_size = n, options_stream = \<lparr>pending = cs, reads = 0\<rparr>,
     msgEventsByChannel = None, src_start = None, src_end = None\<rparr>"

definition schemaA :: Schema where
  "schemaA = \<lparr>schema_id = 1, schema_name = ''A'', schema_encoding = ''jsonschema'', schema_data = []\<rparr>"

definition channelA :: Channel where
  "channelA = \<lparr>channel_id = 1, channel_schemaId = 1, channel_topic = ''/a'',
     channel_messageEncoding = ''json'', channel_metadata = fmempty\<rparr>"

definition msgAt :: "nat \<Rightarrow> nat \<Rightarrow> Message" where
  "msgAt c t = \<lparr>msg_channelId = c, msg_sequence = 0, msg_logTime = t, msg_publishTime = t, msg_data = []\<rparr>"

definition fileA :: "Chunk list" where
  "fileA = [[Decoded (SchemaRecord schemaA), Decoded (ChannelRecord channelA)],
            [Decoded (MessageRecord (msgAt 1 5)), Decoded (MessageRecord (msgAt 1 1)),
             Decoded (MessageRecord (msgAt 1 3))]]"

text \<open>
  A channel whose message encoding the example builder does not understand, and the state
  of ingestion after its Channel record alone: the channel is errored, with its alert.
\<close>

definition channelBad :: Channel where
  "channelBad = \<lparr>channel_id = 7, channel_schemaId = 0, channel_topic = ''/bad'',
     channel_messageEncoding = ''cbor'', channel_metadata = fmempty\<rparr>"

definition stateBad :: Ingest where
  "stateBad =
     initialIngest\<lparr>alerts := [channelErrorAlert channelBad ''Unsupported encoding cbor''],
                   channelIdsWithErrors := {7}\<rparr>"

text \<open>
  The example file after ingestion: the state after its schema and channel, the events of
  its three messages, the state at the end of the file and the source \<^verbatim>\<open>initialize\<close> leaves.
\<close>

definition infoA :: ChannelInfo where
  "infoA = \<lparr>channel = channelA, parsedChannel = \<lparr>parsed_datatypes = []\<rparr>,
     info_schemaName = Some ''A'', info_schemaEncoding = Some ''jsonschema'',
     info_schemaData = Some []\<rparr>"

definition stateA :: Ingest where
  "stateA = initialIngest\<lparr>messagesByChannel := [(1, [])], schemasById := [(1, schemaA)],
              channelInfoById := [(1, infoA)]\<rparr>"

definition eventA :: "nat \<Rightarrow> MessageEvent" where
  "eventA t = \<lparr>topic = ''/a'', receiveTime = \<lparr>sec = 0, nsec = int t\<rparr>,
     publishTime = \<lparr>sec = 0, nsec = int t\<rparr>, message = [], sizeInBytes = 0,
     schemaName = ''A''\<rparr>"

definition stateA3 :: Ingest where
  "stateA3 = stateA\<lparr>messageCount := 3,
               messagesByChannel := [(1, [eventA 5, eventA 1, eventA 3])],
               startTime := Some \<lparr>sec = 0, nsec = 1\<rparr>, endTime := Some \<lparr>sec = 0, nsec = 5\<rparr>\<rparr>"

definition sourceA :: Source where
  "sourceA = \<lparr>options_size = 100, options_stream = \<lparr>pending = [], reads = 3\<rparr>,
     msgEventsByChannel = Some [(1, [eventA 5, eventA 1, eventA 3])],
     src_start = Some \<lparr>sec = 0, nsec = 1\<rparr>, src_end = Some \<lparr>sec = 0, nsec = 5\<rparr>\<rparr>"

text \<open>
  A second file: two channels, 1 and 2, on the same topic \<^verbatim>\<open>/a\<close>, with two messages on
  channel 1 and one on channel 2, and the state at its end.
\<close>

definition channelA2 :: Channel where
  "channelA2 = channelA\<lparr>channel_id := 2\<rparr>"

definition fileTwo :: "Chunk list" where
  "fileTwo = [[Decoded (SchemaRecord schemaA), Decoded (ChannelRecord channelA),
               Decoded (ChannelRecord channelA2)],
              [Decoded (MessageRecord (msgAt 1 5)), Decoded (MessageRecord (msgAt 2 3)),
               Decoded (MessageRecord (msgAt 1 1))]]"

definition stateTwo :: Ingest where
  "stateTwo = initialIngest\<lparr>messageCount := 3,
                messagesByChannel := [(1, [eventA 5, eventA 1]), (2, [eventA 3])],
                schemasById := [(1, schemaA)],
                channelInfoById := [(1, infoA), (2, infoA\<lparr>channel := channelA2\<rparr>)],
                startTime := Some \<lparr>sec = 0, nsec = 1\<rparr>, endTime := Some \<lparr>sec = 0, nsec = 5\<rparr>\<rparr>"

section \<open>Properties\<close>

subsection \<open>The order of times and the sort\<close>

lemma compare_refl: "compare a a = 0"
  by (simp add: compare_def)

lemma compare_total: "compare a b \<le> 0 \<or> compare b a \<le> 0"
  by (auto simp: compare_def Let_def)

lemma compare_flip: "compare a b \<ge> 0 \<Longrightarrow> compare b a \<le> 0"
  by (auto simp: compare_def Let_def split: if_splits)

lemma compare_trans: "compare a b \<le> 0 \<Longrightarrow> compare b c \<le> 0 \<Longrightarrow> compare a c \<le> 0"
  by (auto simp: compare_def Let_def split: if_splits)

lemma mset_insertBy: "mset (insertBy cmp x xs) = add_mset x (mset xs)"
  by (induction xs) auto

lemma mset_sortBy: "mset (sortBy cmp xs) = mset xs"
  by (induction xs) (auto simp: sortBy_def mset_insertBy)

lemma set_insertBy: "set (insertBy cmp x xs) = insert x (set xs)"
  by (induction xs) auto

lemma sorted_insertBy_compareResults:
  "sorted_wrt (\<lambda>a b. compareResults a b \<le> 0) xs \<Longrightarrow>
   sorted_wrt (\<lambda>a b. compareResults a b \<le> 0) (insertBy compareResults x xs)"
proof (induction xs)
  case Nil
  then show ?case by simp
next
  case (Cons y ys)
  show ?case
  proof (cases "compareResults x y \<le> 0")
    case True
    have "\<forall>z\<in>set ys. compareResults x z \<le> 0"
      using Cons.prems True by (auto simp: compareResults_def intro: compare_trans)
    with True Cons.prems show ?thesis by auto
  next
    case False
    then have "compareResults y x \<le> 0"
      using compare_total [of "receiveTime (msgEvent x)" "receiveTime (msgEvent y)"]
      by (auto simp: compareResults_def)
    with False Cons show ?thesis by (auto simp: set_insertBy)
  qed
qed

lemma sorted_sortBy_compareResults:
  "sorted_wrt (\<lambda>a b. compareResults a b \<le> 0) (sortBy compareResults xs)"
  by (induction xs) (auto simp: sortBy_def sorted_insertBy_compareResults)

lemma processChunk_append:
  "processChunk env st (xs @ ys) =
     (case processChunk env st xs of Inl e \<Rightarrow> Inl e | Inr st' \<Rightarrow> processChunk env st' ys)"
  by (induction env st xs rule: processChunk.induct) (auto split: sum.splits)

lemma readLoop_fst: "fst (readLoop env st cs n) = processChunk env st (concat cs)"
  by (induction cs arbitrary: st n) (auto simp: processChunk_append split: sum.splits)

lemma readLoop_success_stream:
  "readLoop env st cs n = (Inr st', s) \<Longrightarrow> s = \<lparr>pending = [], reads = n + length cs + 1\<rparr>"
proof (induction cs arbitrary: st n)
  case Nil
  then show ?case by simp
next
  case (Cons c cs)
  then obtain st1 where "processChunk env st c = Inr st1" "readLoop env st1 cs (n + 1) = (Inr st', s)"
    by (auto split: sum.splits)
  with Cons.IH [of st1 "n + 1"] show ?case by simp
qed

lemma initialize_success:
  assumes "initialize env src = (Inr init, src')"
  shows "\<exists>st. processChunk env initialIngest (concat (pending (options_stream src))) = Inr st
           \<and> init = finish env st
           \<and> msgEventsByChannel src' = Some (messagesByChannel st)
           \<and> src_start src' = Some (init_start init)
           \<and> src_end src' = Some (init_end init)"
proof -
  obtain r s where rl: "readLoop env initialIngest (pending (options_stream src))
                    (reads (options_stream src)) = (r, s)"
    by (cases "readLoop env initialIngest (pending (options_stream src))
                    (reads (options_stream src))") auto
  from assms rl obtain st where r: "r = Inr st"
    by (cases r) (auto simp: initialize_def split: if_splits sum.splits)
  have "processChunk env initialIngest (concat (pending (options_stream src))) = Inr st"
    using readLoop_fst [of env initialIngest "pending (options_stream src)" "reads (options_stream src)"] rl r
    by simp
  moreover have "init = finish env st \<and> msgEventsByChannel src' = Some (messagesByChannel st)
           \<and> src_start src' = Some (init_start init)
           \<and> src_end src' = Some (init_end init)"
    using assms rl r by (auto simp: initialize_def Let_def split: if_splits sum.splits)
  ultimately show ?thesis by blast
qed


lemma processRecord_registryInv:
  assumes "processRecord env st r = Inr st'" and "registryInv st"
  shows "registryInv st'"
proof (cases r)
  case (SchemaRecord sch)
  with assms show ?thesis
    by (auto simp: registryInv_def update_conv' simp del: map_of_eq_Some_iff
          split: option.splits if_splits)
next
  case (ChannelRecord c)
  with assms show ?thesis
    by (auto simp: registryInv_def Let_def distinct_update update_conv' 
          simp del: map_of_eq_Some_iff split: option.splits if_splits sum.splits)
next
  case (MessageRecord m)
  with assms show ?thesis
    by (auto simp: registryInv_def Let_def distinct_update update_conv' 
          simp del: map_of_eq_Some_iff  split: option.splits if_splits sum.splits)
qed (use assms in \<open>auto simp: registryInv_def\<close>)


lemma startTime_update:
  "compare (case so of None \<Rightarrow> rt | Some s \<Rightarrow> if isLessThan rt s then rt else s) rt \<le> 0"
  "so = Some s \<Longrightarrow>
     compare (case so of None \<Rightarrow> rt | Some s \<Rightarrow> if isLessThan rt s then rt else s) s \<le> 0"
  using compare_flip [of rt "the so"]
  by (auto simp: isLessThan_def compare_refl split: option.splits)

lemma endTime_update:
  "compare rt (case eo of None \<Rightarrow> rt | Some e \<Rightarrow> if isGreaterThan rt e then rt else e) \<le> 0"
  "eo = Some e \<Longrightarrow>
     compare e (case eo of None \<Rightarrow> rt | Some e \<Rightarrow> if isGreaterThan rt e then rt else e) \<le> 0"
  using compare_flip [of rt "the eo"]
  by (auto simp: isGreaterThan_def compare_refl split: option.splits)

lemma processRecord_Message_Inr:
  assumes "processRecord env st (MessageRecord m) = Inr st'"
  shows "(\<exists>ci msgs. map_of (channelInfoById st) (msg_channelId m) = Some ci
            \<and> map_of (messagesByChannel st) (msg_channelId m) = Some msgs
            \<and> st' = st\<lparr>messageCount := messageCount st + 1,
                   startTime := Some (case startTime st of None \<Rightarrow> fromNanoSec (msg_logTime m)
                      | Some s \<Rightarrow> if isLessThan (fromNanoSec (msg_logTime m)) s
                                  then fromNanoSec (msg_logTime m) else s),
                   endTime := Some (case endTime st of None \<Rightarrow> fromNanoSec (msg_logTime m)
                      | Some e \<Rightarrow> if isGreaterThan (fromNanoSec (msg_logTime m)) e
                                  then fromNanoSec (msg_logTime m) else e),
                   messagesByChannel :=
                     AList.update (msg_channelId m) (msgs @ [makeMessageEvent ci m])
                       (messagesByChannel st)\<rparr>)
         \<or> ((map_of (channelInfoById st) (msg_channelId m) = None
              \<or> map_of (messagesByChannel st) (msg_channelId m) = None)
              \<and> msg_channelId m \<in> channelIdsWithErrors st \<and> st' = st)"
  using assms
  by (auto simp: Let_def simp del: map_of_eq_Some_iff split: option.splits if_splits)

lemma processRecord_bucketsInv:
  assumes step: "processRecord env st r = Inr st'" and reg: "registryInv st" and inv: "bucketsInv st"
  shows "bucketsInv st'"
proof (cases r)
  case (ChannelRecord c)
  with step reg inv show ?thesis
    by (auto simp: bucketsInv_def registryInv_def Let_def update_conv'
          simp del: map_of_eq_Some_iff split: option.splits if_splits sum.splits)
next
  case (MessageRecord m)
  from processRecord_Message_Inr [OF step [unfolded MessageRecord]]
  show ?thesis
  proof
    assume "\<exists>ci msgs. map_of (channelInfoById st) (msg_channelId m) = Some ci
            \<and> map_of (messagesByChannel st) (msg_channelId m) = Some msgs
            \<and> st' = st\<lparr>messageCount := messageCount st + 1,
                   startTime := Some (case startTime st of None \<Rightarrow> fromNanoSec (msg_logTime m)
                      | Some s \<Rightarrow> if isLessThan (fromNanoSec (msg_logTime m)) s
                                  then fromNanoSec (msg_logTime m) else s),
                   endTime := Some (case endTime st of None \<Rightarrow> fromNanoSec (msg_logTime m)
                      | Some e \<Rightarrow> if isGreaterThan (fromNanoSec (msg_logTime m)) e
                                  then fromNanoSec (msg_logTime m) else e),
                   messagesByChannel :=
                     AList.update (msg_channelId m) (msgs @ [makeMessageEvent ci m])
                       (messagesByChannel st)\<rparr>"
    then obtain ci msgs where
      ci: "map_of (channelInfoById st) (msg_channelId m) = Some ci" and
      msgs: "map_of (messagesByChannel st) (msg_channelId m) = Some msgs" and
      st': "st' = st\<lparr>messageCount := messageCount st + 1,
                   startTime := Some (case startTime st of None \<Rightarrow> fromNanoSec (msg_logTime m)
                      | Some s \<Rightarrow> if isLessThan (fromNanoSec (msg_logTime m)) s
                                  then fromNanoSec (msg_logTime m) else s),
                   endTime := Some (case endTime st of None \<Rightarrow> fromNanoSec (msg_logTime m)
                      | Some e \<Rightarrow> if isGreaterThan (fromNanoSec (msg_logTime m)) e
                                  then fromNanoSec (msg_logTime m) else e),
                   messagesByChannel :=
                     AList.update (msg_channelId m) (msgs @ [makeMessageEvent ci m])
                       (messagesByChannel st)\<rparr>"
      by blast
    let ?rt = "fromNanoSec (msg_logTime m)"
    let ?s = "case startTime st of None \<Rightarrow> ?rt | Some s \<Rightarrow> if isLessThan ?rt s then ?rt else s"
    let ?e = "case endTime st of None \<Rightarrow> ?rt | Some e \<Rightarrow> if isGreaterThan ?rt e then ?rt else e"
    have old: "compare ?s (receiveTime ev) \<le> 0 \<and> compare (receiveTime ev) ?e \<le> 0"
      if "map_of (messagesByChannel st) k = Some es" "ev \<in> set es" for k es ev
    proof -
      from inv that obtain s e where se: "startTime st = Some s" "endTime st = Some e"
        "compare s (receiveTime ev) \<le> 0" "compare (receiveTime ev) e \<le> 0"
        unfolding bucketsInv_def by blast
      from startTime_update(2) [OF se(1), where rt = ?rt] se(3) have "compare ?s (receiveTime ev) \<le> 0"
        by (rule compare_trans)
      moreover from se(4) endTime_update(2) [OF se(2), where rt = ?rt] have "compare (receiveTime ev) ?e \<le> 0"
        by (rule compare_trans)
      ultimately show ?thesis by simp
    qed
    have new: "compare ?s ?rt \<le> 0 \<and> compare ?rt ?e \<le> 0"
      using startTime_update(1) [where so = "startTime st" and rt = ?rt]
        endTime_update(1) [where eo = "endTime st" and rt = ?rt]
      by simp
    show ?thesis
      unfolding bucketsInv_def
    proof (intro allI impI)
      fix k es ev
      assume k: "map_of (messagesByChannel st') k = Some es" and ev: "ev \<in> set es"
      have info: "channelInfoById st' = channelInfoById st" by (simp add: st')
      have times: "startTime st' = Some ?s" "endTime st' = Some ?e" by (simp_all add: st')
      show "(\<exists>ci. map_of (channelInfoById st') k = Some ci \<and> topic ev = channel_topic (channel ci))
        \<and> (\<exists>s e. startTime st' = Some s \<and> endTime st' = Some e
              \<and> compare s (receiveTime ev) \<le> 0 \<and> compare (receiveTime ev) e \<le> 0)"
      proof (cases "k = msg_channelId m \<and> ev = makeMessageEvent ci m")
        case True
        then show ?thesis
          using ci new by (simp add: info times makeMessageEvent_def)
      next
        case False
        then have "\<exists>es0. map_of (messagesByChannel st) k = Some es0 \<and> ev \<in> set es0"
          using k ev msgs by (auto simp: st' update_conv' split: if_splits)
        then obtain es0 where es0: "map_of (messagesByChannel st) k = Some es0" "ev \<in> set es0"
          by blast
        from inv es0 have "\<exists>ci. map_of (channelInfoById st) k = Some ci
            \<and> topic ev = channel_topic (channel ci)"
          unfolding bucketsInv_def by blast
        with old [OF es0] show ?thesis by (simp add: info times)
      qed
    qed
  next
    assume "(map_of (channelInfoById st) (msg_channelId m) = None
              \<or> map_of (messagesByChannel st) (msg_channelId m) = None)
              \<and> msg_channelId m \<in> channelIdsWithErrors st \<and> st' = st"
    with inv show ?thesis by simp
  qed
qed (use step inv in \<open>auto simp: bucketsInv_def split: option.splits if_splits\<close>)


lemma registryInv_initial: "registryInv initialIngest"
  by (simp add: registryInv_def initialIngest_def)

lemma bucketsInv_initial: "bucketsInv initialIngest"
  by (simp add: bucketsInv_def initialIngest_def)

lemma processChunk_invs:
  "processChunk env st items = Inr st' \<Longrightarrow> registryInv st \<Longrightarrow> bucketsInv st \<Longrightarrow>
   registryInv st' \<and> bucketsInv st'"
proof (induction env st items rule: processChunk.induct)
  case (3 env st r rest)
  then obtain st1 where st1: "processRecord env st r = Inr st1"
    "processChunk env st1 rest = Inr st'"
    by (auto split: sum.splits)
  from st1(1) "3.prems"(2,3) have "registryInv st1" "bucketsInv st1"
    by (auto intro: processRecord_registryInv processRecord_bucketsInv)
  with "3.IH" st1 show ?case by simp
qed simp_all

lemma processRecord_errored_mono:
  "processRecord env st r = Inr st' \<Longrightarrow> k \<in> channelIdsWithErrors st \<Longrightarrow>
   k \<in> channelIdsWithErrors st'"
  by (cases r) (auto simp: Let_def split: option.splits if_splits sum.splits)

lemma processRecord_info_persists:
  "processRecord env st r = Inr st' \<Longrightarrow> map_of (channelInfoById st) k = Some ci \<Longrightarrow>
   map_of (channelInfoById st') k = Some ci"
  by (cases r) (auto simp: Let_def update_conv' simp del: map_of_eq_Some_iff
                 split: option.splits if_splits sum.splits)

lemma processRecord_schema_persists:
  "processRecord env st r = Inr st' \<Longrightarrow> map_of (schemasById st) k = Some s \<Longrightarrow>
   map_of (schemasById st') k = Some s"
  by (cases r) (auto simp: Let_def update_conv' simp del: map_of_eq_Some_iff
                 split: option.splits if_splits sum.splits)

lemma processChunk_errored_mono:
  "processChunk env st items = Inr st' \<Longrightarrow> k \<in> channelIdsWithErrors st \<Longrightarrow>
   k \<in> channelIdsWithErrors st'"
  by (induction env st items rule: processChunk.induct)
     (auto split: sum.splits dest: processRecord_errored_mono)

lemma processChunk_info_persists:
  "processChunk env st items = Inr st' \<Longrightarrow> map_of (channelInfoById st) k = Some ci \<Longrightarrow>
   map_of (channelInfoById st') k = Some ci"
  by (induction env st items rule: processChunk.induct)
     (auto split: sum.splits dest: processRecord_info_persists simp del: map_of_eq_Some_iff)

lemma processChunk_schema_persists:
  "processChunk env st items = Inr st' \<Longrightarrow> map_of (schemasById st) k = Some s \<Longrightarrow>
   map_of (schemasById st') k = Some s"
  by (induction env st items rule: processChunk.induct)
     (auto split: sum.splits dest: processRecord_schema_persists simp del: map_of_eq_Some_iff)

lemma reachable_invs:
  "processChunk env initialIngest items = Inr st \<Longrightarrow> registryInv st \<and> bucketsInv st"
  using processChunk_invs registryInv_initial bucketsInv_initial by blast

subsection \<open>The result of initialize\<close>

lemma processRecord_not_FileTooLarge: "processRecord env st r \<noteq> Inl FileTooLarge"
  by (cases r) (auto simp: Let_def split: option.splits sum.splits)

lemma processChunk_not_FileTooLarge: "processChunk env st items \<noteq> Inl FileTooLarge"
  by (induction env st items rule: processChunk.induct)
     (auto split: sum.splits simp: processRecord_not_FileTooLarge)

lemma initialize_fst:
  "fst (initialize env src) =
     (if options_size src > 1024 * 1024 * 1024 then Inl FileTooLarge
      else case loadDecompressHandlers env of
             Inl m \<Rightarrow> Inl (LoadDecompressHandlersFailed m)
           | Inr h \<Rightarrow>
               (case processChunk env initialIngest (concat (pending (options_stream src))) of
                  Inl e \<Rightarrow> Inl e
                | Inr st \<Rightarrow> Inr (finish env st)))"
proof -
  obtain r s where rl: "readLoop env initialIngest (pending (options_stream src))
                    (reads (options_stream src)) = (r, s)"
    by (cases "readLoop env initialIngest (pending (options_stream src))
                    (reads (options_stream src))") auto
  have "r = processChunk env initialIngest (concat (pending (options_stream src)))"
    using readLoop_fst [of env initialIngest "pending (options_stream src)"
        "reads (options_stream src)"] rl by simp
  with rl show ?thesis
    by (auto simp: initialize_def Let_def split: sum.splits)
qed

lemma initialize_failure_no_result:
  assumes "fst (initialize env src) = Inl e"
  shows "msgEventsByChannel (snd (initialize env src)) = msgEventsByChannel src
         \<and> src_start (snd (initialize env src)) = src_start src
         \<and> src_end (snd (initialize env src)) = src_end src"
proof -
  obtain r s where rl: "readLoop env initialIngest (pending (options_stream src))
                    (reads (options_stream src)) = (r, s)"
    by (cases "readLoop env initialIngest (pending (options_stream src))
                    (reads (options_stream src))") auto
  with assms show ?thesis
    by (auto simp: initialize_def Let_def split: sum.splits if_splits)
qed

lemma readLoop_result:
  "processChunk env st (concat cs) = Inr st' \<Longrightarrow>
   readLoop env st cs n = (Inr st', \<lparr>pending = [], reads = n + length cs + 1\<rparr>)"
  using readLoop_fst [of env st cs n] readLoop_success_stream [of env st cs n st']
  by (cases "readLoop env st cs n") auto

lemma finish_bounds:
  "init_start (finish env st) = (case startTime st of Some t \<Rightarrow> t | None \<Rightarrow> \<lparr>sec = 0, nsec = 0\<rparr>)"
  "init_end (finish env st) = (case endTime st of Some t \<Rightarrow> t | None \<Rightarrow> \<lparr>sec = 0, nsec = 0\<rparr>)"
  by (simp_all add: finish_def Let_def)

lemma initialize_Inr:
  assumes "options_size src \<le> 1024 * 1024 * 1024"
    and "loadDecompressHandlers env = Inr h"
    and "processChunk env initialIngest (concat (pending (options_stream src))) = Inr st"
  shows "initialize env src =
           (Inr (finish env st),
            src\<lparr>options_stream :=
                  \<lparr>pending = [],
                   reads = reads (options_stream src) + length (pending (options_stream src)) + 1\<rparr>,
                msgEventsByChannel := Some (messagesByChannel st),
                src_start := Some (init_start (finish env st)),
                src_end := Some (init_end (finish env st))\<rparr>)"
  using assms(1,2) readLoop_result [OF assms(3), of "reads (options_stream src)"]
  by (simp add: initialize_def Let_def)

subsection \<open>The size guard\<close>

text \<open>
  C6. A source whose declared size exceeds 1 GiB (1024 * 1024 * 1024 bytes) is rejected
  with the error whose message names the 1GB limit, and the source object, its stream and
  the count of reads made on it included, is returned untouched: no byte has been read.
  For a declared size that does not exceed the ceiling, whatever \<^verbatim>\<open>initialize\<close> returns is
  not the size error.
\<close>

theorem initialize_size_guard:
  "(options_size src > 1024 * 1024 * 1024 \<longrightarrow>
      initialize env src = (Inl FileTooLarge, src)
      \<and> errorMessage FileTooLarge =
          ''Unable to open unindexed MCAP file; unindexed files are limited to 1GB'')
   \<and> (options_size src \<le> 1024 * 1024 * 1024 \<longrightarrow> fst (initialize env src) \<noteq> Inl FileTooLarge)"
proof (intro conjI impI)
  assume "options_size src > 1024 * 1024 * 1024"
  then show "initialize env src = (Inl FileTooLarge, src)"
    by (simp add: initialize_def)
next
  show "errorMessage FileTooLarge =
          ''Unable to open unindexed MCAP file; unindexed files are limited to 1GB''"
    by simp
next
  assume "options_size src \<le> 1024 * 1024 * 1024"
  then show "fst (initialize env src) \<noteq> Inl FileTooLarge"
    using processChunk_not_FileTooLarge [of env initialIngest "concat (pending (options_stream src))"]
    by (auto simp: initialize_fst split: sum.splits)
qed

theorem initialize_size_guard_witness:
  "initialize sampleCapabilities (mkSource 1073741825 fileA)
     = (Inl FileTooLarge, mkSource 1073741825 fileA)
   \<and> reads (options_stream (snd (initialize sampleCapabilities (mkSource 1073741825 fileA)))) = 0
   \<and> errorMessage FileTooLarge =
          ''Unable to open unindexed MCAP file; unindexed files are limited to 1GB''
   \<and> fst (initialize sampleCapabilities (mkSource 1073741824 fileA)) \<noteq> Inl FileTooLarge"
  using initialize_size_guard [of "mkSource 1073741825 fileA" sampleCapabilities]
    initialize_size_guard [of "mkSource 1073741824 fileA" sampleCapabilities]
  by (simp add: mkSource_def)

subsection \<open>What the records seen so far leave in the registry\<close>

lemma processRecord_Schema_stored:
  "processRecord env st (SchemaRecord s) = Inr st' \<Longrightarrow>
   map_of (schemasById st') (schema_id s) = Some s"
  by (auto simp: update_conv' simp del: map_of_eq_Some_iff split: option.splits if_splits)

lemma processRecord_Channel_settled:
  "processRecord env st (ChannelRecord c) = Inr st' \<Longrightarrow>
   (\<exists>ci. map_of (channelInfoById st') (channel_id c) = Some ci \<and> channel ci = c)
   \<or> channel_id c \<in> channelIdsWithErrors st'"
  by (auto simp: Let_def update_conv' simp del: map_of_eq_Some_iff
        split: option.splits if_splits sum.splits)

lemma schema_seen:
  "processChunk env st items = Inr st' \<Longrightarrow> Decoded (SchemaRecord s) \<in> set items \<Longrightarrow>
   map_of (schemasById st') (schema_id s) = Some s"
proof (induction env st items rule: processChunk.induct)
  case (3 env st r rest)
  then obtain st1 where st1: "processRecord env st r = Inr st1"
    "processChunk env st1 rest = Inr st'"
    by (auto split: sum.splits)
  show ?case
  proof (cases "r = SchemaRecord s")
    case True
    with st1(1) have "map_of (schemasById st1) (schema_id s) = Some s"
      by (simp only: processRecord_Schema_stored)
    with st1(2) show ?thesis by (rule processChunk_schema_persists)
  next
    case False
    with "3.prems" have "Decoded (SchemaRecord s) \<in> set rest" by simp
    with "3.IH" st1 show ?thesis by simp
  qed
qed simp_all

lemma channel_seen:
  "processChunk env st items = Inr st' \<Longrightarrow> Decoded (ChannelRecord c) \<in> set items \<Longrightarrow>
   (\<exists>ci. map_of (channelInfoById st') (channel_id c) = Some ci \<and> channel ci = c)
   \<or> channel_id c \<in> channelIdsWithErrors st'"
proof (induction env st items rule: processChunk.induct)
  case (3 env st r rest)
  then obtain st1 where st1: "processRecord env st r = Inr st1"
    "processChunk env st1 rest = Inr st'"
    by (auto split: sum.splits)
  show ?case
  proof (cases "r = ChannelRecord c")
    case True
    with st1(1) have "(\<exists>ci. map_of (channelInfoById st1) (channel_id c) = Some ci \<and> channel ci = c)
        \<or> channel_id c \<in> channelIdsWithErrors st1"
      by (simp only: processRecord_Channel_settled)
    with st1(2) show ?thesis
      using processChunk_info_persists processChunk_errored_mono by blast
  next
    case False
    with "3.prems" have "Decoded (ChannelRecord c) \<in> set rest" by simp
    with "3.IH" st1 show ?thesis by simp
  qed
qed simp_all

lemma processRecord_schema_origin:
  "processRecord env st r = Inr st' \<Longrightarrow> map_of (schemasById st') k \<noteq> None \<Longrightarrow>
   map_of (schemasById st) k \<noteq> None \<or> (\<exists>s. r = SchemaRecord s \<and> schema_id s = k)"
  by (cases r) (auto simp: Let_def update_conv' simp del: map_of_eq_Some_iff
                  split: option.splits if_splits sum.splits)

lemma schema_origin:
  "processChunk env st items = Inr st' \<Longrightarrow> map_of (schemasById st') k \<noteq> None \<Longrightarrow>
   map_of (schemasById st) k \<noteq> None
   \<or> (\<exists>s. Decoded (SchemaRecord s) \<in> set items \<and> schema_id s = k)"
proof (induction env st items rule: processChunk.induct)
  case (3 env st r rest)
  then obtain st1 where st1: "processRecord env st r = Inr st1"
    "processChunk env st1 rest = Inr st'"
    by (auto split: sum.splits)
  from "3.IH" [OF st1(1)] st1(2) "3.prems"(2)
  have "map_of (schemasById st1) k \<noteq> None
        \<or> (\<exists>s. Decoded (SchemaRecord s) \<in> set rest \<and> schema_id s = k)"
    by simp
  then show ?case
  proof
    assume "map_of (schemasById st1) k \<noteq> None"
    from processRecord_schema_origin [OF st1(1) this] show ?thesis by auto
  next
    assume "\<exists>s. Decoded (SchemaRecord s) \<in> set rest \<and> schema_id s = k"
    then show ?thesis by auto
  qed
qed simp_all

lemma initialize_fails_at:
  assumes items: "concat (pending (options_stream src)) = pre @ Decoded r # post"
    and step: "\<And>st. processChunk env initialIngest pre = Inr st \<Longrightarrow>
                 \<exists>e. processRecord env st r = Inl e"
  shows "\<exists>e. fst (initialize env src) = Inl e
             \<and> msgEventsByChannel (snd (initialize env src)) = msgEventsByChannel src"
proof -
  have "\<exists>e. processChunk env initialIngest (pre @ Decoded r # post) = Inl e"
  proof (cases "processChunk env initialIngest pre")
    case (Inl e)
    then show ?thesis by (simp add: processChunk_append)
  next
    case (Inr st)
    from step [OF this] obtain e where "processRecord env st r = Inl e" by blast
    with Inr show ?thesis by (simp add: processChunk_append del: processRecord.simps)
  qed
  then have "\<exists>e. fst (initialize env src) = Inl e"
    by (auto simp: initialize_fst items split: sum.splits)
  then show ?thesis
    using initialize_failure_no_result by blast
qed

subsection \<open>The example inputs, evaluated\<close>

lemma ingest_channelBad:
  "processChunk sampleCapabilities initialIngest [Decoded (ChannelRecord channelBad)] = Inr stateBad"
  by (simp add: sampleCapabilities_def initialIngest_def channelBad_def stateBad_def Let_def)

lemma ingest_stateA:
  "processChunk sampleCapabilities initialIngest
     [Decoded (SchemaRecord schemaA), Decoded (ChannelRecord channelA)] = Inr stateA"
  by (simp add: sampleCapabilities_def initialIngest_def channelA_def schemaA_def stateA_def
        infoA_def Let_def)

lemma ingest_stateA3:
  "processChunk sampleCapabilities stateA
     [Decoded (MessageRecord (msgAt 1 5)), Decoded (MessageRecord (msgAt 1 1)),
      Decoded (MessageRecord (msgAt 1 3))] = Inr stateA3"
  by (simp add: initialIngest_def channelA_def stateA_def stateA3_def eventA_def
        infoA_def msgAt_def makeMessageEvent_def fromNanoSec_def isLessThan_def isGreaterThan_def
        compare_def Let_def)

lemma ingest_fileA: "processChunk sampleCapabilities initialIngest (concat fileA) = Inr stateA3"
proof -
  have "concat fileA =
      [Decoded (SchemaRecord schemaA), Decoded (ChannelRecord channelA)]
      @ [Decoded (MessageRecord (msgAt 1 5)), Decoded (MessageRecord (msgAt 1 1)),
         Decoded (MessageRecord (msgAt 1 3))]"
    by (simp add: fileA_def)
  then show ?thesis
    by (simp only: processChunk_append ingest_stateA ingest_stateA3 sum.case)
qed

lemma initialize_fileA:
  "initialize sampleCapabilities (mkSource 100 fileA)
     = (Inr (finish sampleCapabilities stateA3), sourceA)"
proof -
  have "processChunk sampleCapabilities initialIngest
          (concat (pending (options_stream (mkSource 100 fileA)))) = Inr stateA3"
    using ingest_fileA by (simp add: mkSource_def)
  from initialize_Inr [OF _ _ this, of "()"] show ?thesis
    by (simp add: finish_bounds mkSource_def sampleCapabilities_def sourceA_def stateA3_def
          stateA_def fileA_def)
qed

subsection \<open>The results of the reader\<close>

lemma readerResults_append:
  "readerResults seen (xs @ ys) =
     (case readerAfter seen xs of
        None \<Rightarrow> readerResults seen xs
      | Some seen' \<Rightarrow> readerResults seen xs @ readerResults seen' ys)"
  by (induction seen xs rule: readerResults.induct) (auto split: sum.splits option.splits)

lemma processChunk_reader_thrown:
  "readerAfter seen xs = None \<Longrightarrow> \<exists>e. processChunk env st (readerResults seen xs) = Inl e"
proof (induction seen xs arbitrary: st rule: readerResults.induct)
  case (3 seen r rest)
  show ?case
  proof (cases "acceptRecord seen r")
    case (Inl m)
    then show ?thesis by simp
  next
    case (Inr seen')
    with "3.prems" have "readerAfter seen' rest = None" by simp
    from "3.IH" [OF Inr this] Inr show ?thesis
      by (cases "processRecord env st r") (simp_all del: processRecord.simps)
  qed
qed simp_all

lemma processChunk_throws:
  "\<exists>e. processChunk env st (xs @ DecoderThrows m # ys) = Inl e"
  by (cases "processChunk env st xs") (simp_all add: processChunk_append)

lemma acceptRecord_keeps:
  "acceptRecord seen r = Inr seen' \<Longrightarrow> seen k = Some c \<Longrightarrow> seen' k = Some c"
  by (cases r) (auto split: option.splits if_splits)

lemma readerAfter_keeps:
  "readerAfter seen xs = Some seen' \<Longrightarrow> seen k = Some c \<Longrightarrow> seen' k = Some c"
proof (induction seen xs rule: readerResults.induct)
  case (3 seen r rest)
  then obtain seen1 where s1: "acceptRecord seen r = Inr seen1" "readerAfter seen1 rest = Some seen'"
    by (auto split: sum.splits)
  from acceptRecord_keeps [OF s1(1) "3.prems"(2)] "3.IH" [OF s1] show ?case by simp
qed simp_all

lemma readerAfter_channel:
  "readerAfter seen xs = Some seen' \<Longrightarrow> FileRecord (ChannelRecord c) \<in> set xs \<Longrightarrow>
   seen' (channel_id c) = Some c"
proof (induction seen xs rule: readerResults.induct)
  case (3 seen r rest)
  then obtain seen1 where s1: "acceptRecord seen r = Inr seen1" "readerAfter seen1 rest = Some seen'"
    by (auto split: sum.splits)
  show ?case
  proof (cases "r = ChannelRecord c")
    case True
    with s1(1) have "seen1 (channel_id c) = Some c"
      by (auto split: option.splits if_splits)
    with s1(2) show ?thesis by (rule readerAfter_keeps)
  next
    case False
    with "3.prems"(2) have "FileRecord (ChannelRecord c) \<in> set rest" by simp
    with "3.IH" [OF s1] show ?thesis by simp
  qed
qed simp_all

lemma readerResults_delivers:
  "readerAfter seen xs = Some seen' \<Longrightarrow> FileRecord r \<in> set xs \<Longrightarrow>
   Decoded r \<in> set (readerResults seen xs)"
  by (induction seen xs rule: readerResults.induct) (auto split: sum.splits)

lemma readerResults_from_file:
  "Decoded r \<in> set (readerResults seen xs) \<Longrightarrow> FileRecord r \<in> set xs"
  by (induction seen xs rule: readerResults.induct) (auto split: sum.splits)

lemma initialize_fails_if:
  assumes "\<exists>e. processChunk env initialIngest (concat (pending (options_stream src))) = Inl e"
  shows "\<exists>e. fst (initialize env src) = Inl e
             \<and> msgEventsByChannel (snd (initialize env src)) = msgEventsByChannel src"
proof -
  from assms have "\<exists>e. fst (initialize env src) = Inl e"
    by (auto simp: initialize_fst split: sum.splits)
  then show ?thesis using initialize_failure_no_result by blast
qed

lemma processRecord_errored_origin:
  "processRecord env st r = Inr st' \<Longrightarrow> k \<in> channelIdsWithErrors st' \<Longrightarrow>
   k \<in> channelIdsWithErrors st
   \<or> (\<exists>d. r = ChannelRecord d \<and> channel_id d = k
          \<and> (channel_schemaId d = 0
              \<or> map_of (schemasById st') (channel_schemaId d) \<noteq> None))"
  by (cases r) (auto simp: Let_def simp del: map_of_eq_Some_iff
                  split: option.splits if_splits sum.splits)

lemma errored_origin:
  "processChunk env st items = Inr st' \<Longrightarrow> k \<in> channelIdsWithErrors st' \<Longrightarrow>
   k \<in> channelIdsWithErrors st
   \<or> (\<exists>d. Decoded (ChannelRecord d) \<in> set items \<and> channel_id d = k
          \<and> (channel_schemaId d = 0
              \<or> map_of (schemasById st') (channel_schemaId d) \<noteq> None))"
proof (induction env st items rule: processChunk.induct)
  case (3 env st r rest)
  then obtain st1 where st1: "processRecord env st r = Inr st1"
    "processChunk env st1 rest = Inr st'"
    by (auto split: sum.splits)
  from "3.IH" [OF st1 "3.prems"(2)]
  show ?case
  proof
    assume "k \<in> channelIdsWithErrors st1"
    from processRecord_errored_origin [OF st1(1) this]
    show ?thesis
    proof
      assume "k \<in> channelIdsWithErrors st"
      then show ?thesis by simp
    next
      assume "\<exists>d. r = ChannelRecord d \<and> channel_id d = k
          \<and> (channel_schemaId d = 0
              \<or> map_of (schemasById st1) (channel_schemaId d) \<noteq> None)"
      then obtain d where d: "r = ChannelRecord d" "channel_id d = k"
        "channel_schemaId d = 0 \<or> map_of (schemasById st1) (channel_schemaId d) \<noteq> None"
        by blast
      from d(3) have "channel_schemaId d = 0
          \<or> map_of (schemasById st') (channel_schemaId d) \<noteq> None"
        using processChunk_schema_persists [OF st1(2)] by fastforce
      with d(1,2) show ?thesis by auto
    qed
  next
    assume "\<exists>d. Decoded (ChannelRecord d) \<in> set rest \<and> channel_id d = k
          \<and> (channel_schemaId d = 0
              \<or> map_of (schemasById st') (channel_schemaId d) \<noteq> None)"
    then show ?thesis by auto
  qed
qed simp_all

subsection \<open>Redefinition of schemas and channels\<close>

text \<open>
  C3. Let a file hold a Schema or Channel record \<open>r2\<close> after an earlier record \<open>r1\<close>, and
  let the stream of the source deliver what the reader returns on that file. If \<open>r2\<close> is
  \<open>r1\<close> again, with identical content, then from a state \<open>st\<close> that ingestion has reached
  on the records before it, processing \<open>r2\<close> returns \<open>st\<close> itself: no failure, no alert,
  nothing changed, and the file up to and including \<open>r2\<close> is ingested into \<open>st\<close>. If \<open>r1\<close>
  and \<open>r2\<close> are Schema records with one id, or Channel records with one id, and \<open>r2\<close>
  differs from \<open>r1\<close>, then \<^verbatim>\<open>initialize\<close> fails and assigns none of the fields of the source
  (no partial result): a differing Schema record is thrown on by \<^verbatim>\<open>processRecord\<close>, unless
  ingestion has failed before it, and a differing Channel record by the reader.
\<close>

theorem schema_channel_redefinition:
  fixes src :: Source
  assumes stream: "concat (pending (options_stream src))
                     = readerResults Map.empty (pre @ FileRecord r2 # post)"
    and earlier: "FileRecord r1 \<in> set pre"
  shows
    "(r2 = r1 \<longrightarrow> (\<exists>s. r1 = SchemaRecord s) \<or> (\<exists>c. r1 = ChannelRecord c) \<longrightarrow>
        (\<forall>st. processChunk env initialIngest (readerResults Map.empty pre) = Inr st \<longrightarrow>
              processRecord env st r2 = Inr st
              \<and> processChunk env initialIngest (readerResults Map.empty (pre @ [FileRecord r2]))
                  = Inr st))
   \<and> (\<forall>s s'. r1 = SchemaRecord s \<longrightarrow> r2 = SchemaRecord s' \<longrightarrow>
         schema_id s' = schema_id s \<longrightarrow> s' \<noteq> s \<longrightarrow>
         (\<exists>e. fst (initialize env src) = Inl e
            \<and> msgEventsByChannel (snd (initialize env src)) = msgEventsByChannel src))
   \<and> (\<forall>c c'. r1 = ChannelRecord c \<longrightarrow> r2 = ChannelRecord c' \<longrightarrow>
         channel_id c' = channel_id c \<longrightarrow> c' \<noteq> c \<longrightarrow>
         (\<exists>e. fst (initialize env src) = Inl e
            \<and> msgEventsByChannel (snd (initialize env src)) = msgEventsByChannel src))"
proof (intro conjI allI impI)
  fix st
  assume same: "r2 = r1"
    and kind: "(\<exists>s. r1 = SchemaRecord s) \<or> (\<exists>c. r1 = ChannelRecord c)"
    and pre: "processChunk env initialIngest (readerResults Map.empty pre) = Inr st"
  from pre processChunk_reader_thrown [of Map.empty pre env initialIngest]
  obtain seen where seen: "readerAfter Map.empty pre = Some seen"
    by (cases "readerAfter Map.empty pre") auto
  have delivered: "Decoded r1 \<in> set (readerResults Map.empty pre)"
    using readerResults_delivers [OF seen earlier] .
  have accepted: "\<exists>seen'. acceptRecord seen r1 = Inr seen'"
    using kind readerAfter_channel [OF seen] earlier by auto
  then have results: "readerResults Map.empty (pre @ [FileRecord r2])
                        = readerResults Map.empty pre @ [Decoded r2]"
    by (auto simp: readerResults_append seen same)
  from kind have skip: "processRecord env st r1 = Inr st"
  proof
    assume "\<exists>s. r1 = SchemaRecord s"
    then obtain s where s: "r1 = SchemaRecord s" by blast
    from schema_seen [OF pre delivered [unfolded s]]
    have stored: "map_of (schemasById st) (schema_id s) = Some s" .
    then have "AList.update (schema_id s) s (schemasById st) = schemasById st"
      by (rule update_triv)
    with stored show ?thesis by (simp add: s)
  next
    assume "\<exists>c. r1 = ChannelRecord c"
    then obtain c where c: "r1 = ChannelRecord c" by blast
    have inv: "registryInv st" using reachable_invs [OF pre] by simp
    from channel_seen [OF pre delivered [unfolded c]]
    show ?thesis
    proof
      assume "\<exists>ci. map_of (channelInfoById st) (channel_id c) = Some ci \<and> channel ci = c"
      then show ?thesis by (auto simp: c)
    next
      assume "channel_id c \<in> channelIdsWithErrors st"
      with inv show ?thesis by (auto simp: c registryInv_def)
    qed
  qed
  then show "processRecord env st r2 = Inr st" by (simp only: same)
  show "processChunk env initialIngest (readerResults Map.empty (pre @ [FileRecord r2])) = Inr st"
    unfolding results using pre skip
    by (simp add: processChunk_append same del: processRecord.simps)
next
  fix s s' :: Schema
  assume r: "r1 = SchemaRecord s" "r2 = SchemaRecord s'"
    and diff: "schema_id s' = schema_id s" "s' \<noteq> s"
  show "\<exists>e. fst (initialize env src) = Inl e
          \<and> msgEventsByChannel (snd (initialize env src)) = msgEventsByChannel src"
  proof (cases "readerAfter Map.empty pre")
    case None
    then have "readerResults Map.empty (pre @ FileRecord r2 # post) = readerResults Map.empty pre"
      by (simp add: readerResults_append)
    with processChunk_reader_thrown [OF None, of env initialIngest] stream
    show ?thesis by (intro initialize_fails_if) simp
  next
    case (Some seen)
    have items: "concat (pending (options_stream src))
        = readerResults Map.empty pre @ Decoded r2 # readerResults seen post"
      by (simp add: stream readerResults_append Some r(2))
    show ?thesis
    proof (rule initialize_fails_at [OF items])
      fix st
      assume pre: "processChunk env initialIngest (readerResults Map.empty pre) = Inr st"
      from schema_seen [OF pre readerResults_delivers [OF Some earlier [unfolded r(1)]]]
      have "map_of (schemasById st) (schema_id s) = Some s" .
      with diff show "\<exists>e. processRecord env st r2 = Inl e"
        by (simp add: r(2))
    qed
  qed
next
  fix c c' :: Channel
  assume r: "r1 = ChannelRecord c" "r2 = ChannelRecord c'"
    and diff: "channel_id c' = channel_id c" "c' \<noteq> c"
  have "\<exists>e. processChunk env initialIngest (concat (pending (options_stream src))) = Inl e"
  proof (cases "readerAfter Map.empty pre")
    case None
    then have "readerResults Map.empty (pre @ FileRecord r2 # post) = readerResults Map.empty pre"
      by (simp add: readerResults_append)
    with processChunk_reader_thrown [OF None, of env initialIngest] stream
    show ?thesis by simp
  next
    case (Some seen)
    from readerAfter_channel [OF Some earlier [unfolded r(1)]] diff
    have "\<exists>m. acceptRecord seen r2 = Inl m" by (simp add: r(2))
    then obtain m where "readerResults Map.empty (pre @ FileRecord r2 # post)
        = readerResults Map.empty pre @ DecoderThrows m # []"
      by (auto simp: readerResults_append Some)
    with processChunk_throws [of env initialIngest "readerResults Map.empty pre" m "[]"] stream
    show ?thesis by simp
  qed
  then show "\<exists>e. fst (initialize env src) = Inl e
          \<and> msgEventsByChannel (snd (initialize env src)) = msgEventsByChannel src"
    by (rule initialize_fails_if)
qed

lemma reader_headA:
  "readerResults Map.empty [FileRecord (SchemaRecord schemaA), FileRecord (ChannelRecord channelA)]
     = [Decoded (SchemaRecord schemaA), Decoded (ChannelRecord channelA)]"
  by simp

theorem schema_channel_redefinition_witness:
  "processChunk sampleCapabilities initialIngest
      (readerResults Map.empty
         [FileRecord (SchemaRecord schemaA), FileRecord (ChannelRecord channelA),
          FileRecord (SchemaRecord schemaA)]) = Inr stateA
   \<and> processChunk sampleCapabilities initialIngest
      (readerResults Map.empty
         [FileRecord (SchemaRecord schemaA), FileRecord (ChannelRecord channelA),
          FileRecord (ChannelRecord channelA)]) = Inr stateA
   \<and> isl (fst (initialize sampleCapabilities (mkSource 100
        [readerResults Map.empty
           [FileRecord (SchemaRecord schemaA), FileRecord (ChannelRecord channelA),
            FileRecord (SchemaRecord (schemaA\<lparr>schema_name := ''B''\<rparr>))]])))
   \<and> isl (fst (initialize sampleCapabilities (mkSource 100
        [readerResults Map.empty
           [FileRecord (SchemaRecord schemaA), FileRecord (ChannelRecord channelA),
            FileRecord (ChannelRecord (channelA\<lparr>channel_topic := ''/b''\<rparr>))]])))
   \<and> isl (fst (initialize sampleCapabilities (mkSource 100
        [readerResults Map.empty
           [FileRecord (ChannelRecord channelBad),
            FileRecord (ChannelRecord (channelBad\<lparr>channel_topic := ''/other''\<rparr>))]])))"
proof -
  let ?pre = "[FileRecord (SchemaRecord schemaA), FileRecord (ChannelRecord channelA)]"
  let ?s' = "schemaA\<lparr>schema_name := ''B''\<rparr>"
  let ?c' = "channelA\<lparr>channel_topic := ''/b''\<rparr>"
  let ?b' = "channelBad\<lparr>channel_topic := ''/other''\<rparr>"
  have stream: "concat (pending (options_stream (mkSource 100 [readerResults Map.empty (p @ FileRecord r # [])])))
                 = readerResults Map.empty (p @ FileRecord r # [])" for p r
    by (simp add: mkSource_def)
  have pre: "processChunk sampleCapabilities initialIngest (readerResults Map.empty ?pre) = Inr stateA"
    by (simp only: reader_headA ingest_stateA)
  have a1: "processChunk sampleCapabilities initialIngest
              (readerResults Map.empty (?pre @ [FileRecord (SchemaRecord schemaA)])) = Inr stateA"
    using schema_channel_redefinition [OF stream [of ?pre "SchemaRecord schemaA"],
        of "SchemaRecord schemaA" sampleCapabilities] pre
    by (simp del: processRecord.simps processChunk.simps readerResults.simps)
  have a2: "processChunk sampleCapabilities initialIngest
              (readerResults Map.empty (?pre @ [FileRecord (ChannelRecord channelA)])) = Inr stateA"
    using schema_channel_redefinition [OF stream [of ?pre "ChannelRecord channelA"],
        of "ChannelRecord channelA" sampleCapabilities] pre
    by (simp del: processRecord.simps processChunk.simps readerResults.simps)
  have b: "isl (fst (initialize sampleCapabilities
              (mkSource 100 [readerResults Map.empty (?pre @ FileRecord (SchemaRecord ?s') # [])])))"
    using schema_channel_redefinition [OF stream [of ?pre "SchemaRecord ?s'"],
        of "SchemaRecord schemaA" sampleCapabilities]
    by (auto simp: schemaA_def simp del: readerResults.simps)
  have c: "isl (fst (initialize sampleCapabilities
              (mkSource 100 [readerResults Map.empty (?pre @ FileRecord (ChannelRecord ?c') # [])])))"
    using schema_channel_redefinition [OF stream [of ?pre "ChannelRecord ?c'"],
        of "ChannelRecord channelA" sampleCapabilities]
    by (auto simp: channelA_def simp del: readerResults.simps)
  have d: "isl (fst (initialize sampleCapabilities
              (mkSource 100 [readerResults Map.empty
                 ([FileRecord (ChannelRecord channelBad)] @ FileRecord (ChannelRecord ?b') # [])])))"
    using schema_channel_redefinition [OF stream [of "[FileRecord (ChannelRecord channelBad)]"
          "ChannelRecord ?b'"], of "ChannelRecord channelBad" sampleCapabilities]
    by (auto simp: channelBad_def simp del: readerResults.simps)
  from a1 a2 b c d show ?thesis by simp
qed

subsection \<open>A channel that names an unknown schema\<close>

text \<open>
  C4. Let a file hold a Channel record that names a nonzero schema id for which no Schema
  record has appeared before it, and let the stream of the source deliver what the
  reader returns on that file. Then \<^verbatim>\<open>initialize\<close> fails and assigns none of the fields of
  the source. Only the records before the Channel record are looked at: a Schema record
  that appears later in the file does not prevent the failure. (An errored channel id
  does not open a way around the check: an id becomes errored only on a Channel record
  that has passed it, and the reader returns no Channel record that differs from that
  one.)
\<close>

theorem channel_without_prior_schema:
  fixes src :: Source
  assumes stream: "concat (pending (options_stream src))
                     = readerResults Map.empty (pre @ FileRecord (ChannelRecord c) # post)"
    and nonzero: "channel_schemaId c \<noteq> 0"
    and noschema: "\<forall>s. FileRecord (SchemaRecord s) \<in> set pre \<longrightarrow> schema_id s \<noteq> channel_schemaId c"
  shows "\<exists>e. fst (initialize env src) = Inl e
           \<and> msgEventsByChannel (snd (initialize env src)) = msgEventsByChannel src"
proof (cases "readerAfter Map.empty pre")
  case None
  then have "readerResults Map.empty (pre @ FileRecord (ChannelRecord c) # post)
               = readerResults Map.empty pre"
    by (simp add: readerResults_append)
  with processChunk_reader_thrown [OF None, of env initialIngest] stream
  show ?thesis by (intro initialize_fails_if) simp
next
  case (Some seen)
  show ?thesis
  proof (cases "acceptRecord seen (ChannelRecord c)")
    case (Inl m)
    then have "readerResults Map.empty (pre @ FileRecord (ChannelRecord c) # post)
        = readerResults Map.empty pre @ DecoderThrows m # []"
      by (simp add: readerResults_append Some)
    with processChunk_throws [of env initialIngest "readerResults Map.empty pre" m "[]"] stream
    show ?thesis by (intro initialize_fails_if) simp
  next
    case (Inr seen')
    then have items: "concat (pending (options_stream src))
        = readerResults Map.empty pre @ Decoded (ChannelRecord c) # readerResults seen' post"
      by (simp add: stream readerResults_append Some)
    show ?thesis
    proof (rule initialize_fails_at [OF items])
      fix st
      assume pre: "processChunk env initialIngest (readerResults Map.empty pre) = Inr st"
      have unknown: "map_of (schemasById st) (channel_schemaId c) = None"
      proof (rule ccontr)
        assume "map_of (schemasById st) (channel_schemaId c) \<noteq> None"
        from schema_origin [OF pre this] noschema show False
          by (auto simp: initialIngest_def dest: readerResults_from_file)
      qed
      have inv: "registryInv st" using reachable_invs [OF pre] by simp
      have nerr: "channel_id c \<notin> channelIdsWithErrors st"
      proof
        assume "channel_id c \<in> channelIdsWithErrors st"
        from errored_origin [OF pre this]
        obtain d where d: "Decoded (ChannelRecord d) \<in> set (readerResults Map.empty pre)"
          "channel_id d = channel_id c"
          "channel_schemaId d = 0 \<or> map_of (schemasById st) (channel_schemaId d) \<noteq> None"
          by (auto simp: initialIngest_def)
        from readerAfter_channel [OF Some readerResults_from_file [OF d(1)]] d(2)
        have "seen (channel_id c) = Some d" by simp
        with Inr have "d = c" by (auto split: if_splits)
        with d(3) nonzero unknown show False by simp
      qed
      show "\<exists>e. processRecord env st (ChannelRecord c) = Inl e"
      proof (cases "map_of (channelInfoById st) (channel_id c)")
        case None
        with nerr nonzero unknown show ?thesis by (simp add: Let_def)
      next
        case (Some ci)
        show ?thesis
        proof (cases "channel ci = c")
          case True
          with inv Some nonzero have "map_of (schemasById st) (channel_schemaId c) \<noteq> None"
            unfolding registryInv_def by blast
          with unknown show ?thesis by simp
        next
          case False
          with Some show ?thesis by simp
        qed
      qed
    qed
  qed
qed

theorem channel_without_prior_schema_witness:
  "isl (fst (initialize sampleCapabilities (mkSource 100
        [readerResults Map.empty
           [FileRecord (SchemaRecord schemaA),
            FileRecord (ChannelRecord (channelA\<lparr>channel_schemaId := 9\<rparr>)),
            FileRecord (SchemaRecord (schemaA\<lparr>schema_id := 9\<rparr>))]])))
   \<and> isl (fst (initialize sampleCapabilities (mkSource 100
        [readerResults Map.empty
           [FileRecord (ChannelRecord channelBad),
            FileRecord (ChannelRecord (channelBad\<lparr>channel_schemaId := 9\<rparr>))]])))"
proof -
  let ?c = "channelA\<lparr>channel_schemaId := 9\<rparr>"
  let ?b = "channelBad\<lparr>channel_schemaId := 9\<rparr>"
  have stream: "concat (pending (options_stream (mkSource 100
                   [readerResults Map.empty (p @ FileRecord r # q)])))
                 = readerResults Map.empty (p @ FileRecord r # q)" for p r q
    by (simp add: mkSource_def)
  have "isl (fst (initialize sampleCapabilities (mkSource 100
        [readerResults Map.empty
           ([FileRecord (SchemaRecord schemaA)] @ FileRecord (ChannelRecord ?c)
              # [FileRecord (SchemaRecord (schemaA\<lparr>schema_id := 9\<rparr>))])])))"
    using channel_without_prior_schema [OF stream [of "[FileRecord (SchemaRecord schemaA)]"
          "ChannelRecord ?c" "[FileRecord (SchemaRecord (schemaA\<lparr>schema_id := 9\<rparr>))]"],
        of sampleCapabilities]
    by (auto simp: schemaA_def simp del: readerResults.simps)
  moreover have "isl (fst (initialize sampleCapabilities (mkSource 100
        [readerResults Map.empty
           ([FileRecord (ChannelRecord channelBad)] @ FileRecord (ChannelRecord ?b) # [])])))"
    using channel_without_prior_schema [OF stream [of "[FileRecord (ChannelRecord channelBad)]"
          "ChannelRecord ?b" "[]"], of sampleCapabilities]
    by (auto simp del: readerResults.simps)
  ultimately show ?thesis by simp
qed

subsection \<open>A message for an unregistered channel\<close>

text \<open>
  C5. Let a Message record arrive in a state reached by ingestion in which its channel id
  has no channel info or no bucket. If the id is in the errored set, the record is dropped:
  the state is returned as it was and the rest of the file is processed from it. Otherwise
  \<^verbatim>\<open>processRecord\<close> throws the error "message for channel ... with no prior channel info",
  which \<^verbatim>\<open>initialize\<close> on such a file (of accepted size, with the decompression handlers
  loaded) returns as its failure, assigning none of the fields of the source.
\<close>

theorem message_without_channel:
  assumes pre: "processChunk env initialIngest pre = Inr st"
    and unreg: "map_of (channelInfoById st) (msg_channelId m) = None
                \<or> map_of (messagesByChannel st) (msg_channelId m) = None"
  shows "(msg_channelId m \<in> channelIdsWithErrors st \<longrightarrow>
            processRecord env st (MessageRecord m) = Inr st
            \<and> processChunk env initialIngest (pre @ Decoded (MessageRecord m) # post)
                = processChunk env st post)
       \<and> (msg_channelId m \<notin> channelIdsWithErrors st \<longrightarrow>
            processRecord env st (MessageRecord m) = Inl (NoPriorChannelInfo (msg_channelId m))
            \<and> (\<forall>src. concat (pending (options_stream src)) = pre @ Decoded (MessageRecord m) # post
                  \<longrightarrow> options_size src \<le> 1024 * 1024 * 1024
                  \<longrightarrow> loadDecompressHandlers env = Inr ()
                  \<longrightarrow> fst (initialize env src) = Inl (NoPriorChannelInfo (msg_channelId m))
                      \<and> msgEventsByChannel (snd (initialize env src)) = msgEventsByChannel src))"
proof (intro conjI impI allI)
  assume err: "msg_channelId m \<in> channelIdsWithErrors st"
  with unreg show skip: "processRecord env st (MessageRecord m) = Inr st"
    by (auto simp: Let_def split: option.splits)
  show "processChunk env initialIngest (pre @ Decoded (MessageRecord m) # post)
                = processChunk env st post"
    by (simp add: processChunk_append pre skip del: processRecord.simps)
next
  assume nerr: "msg_channelId m \<notin> channelIdsWithErrors st"
  with unreg show fatal:
    "processRecord env st (MessageRecord m) = Inl (NoPriorChannelInfo (msg_channelId m))"
    by (auto simp: Let_def split: option.splits)
  fix src :: Source
  assume items: "concat (pending (options_stream src)) = pre @ Decoded (MessageRecord m) # post"
    and size: "options_size src \<le> 1024 * 1024 * 1024"
    and handlers: "loadDecompressHandlers env = Inr ()"
  show res: "fst (initialize env src) = Inl (NoPriorChannelInfo (msg_channelId m))"
    using size handlers
    by (simp add: initialize_fst items processChunk_append pre fatal del: processRecord.simps)
  show "msgEventsByChannel (snd (initialize env src)) = msgEventsByChannel src"
    using initialize_failure_no_result [OF res] by simp
qed

theorem message_without_channel_witness:
  "processRecord sampleCapabilities stateBad (MessageRecord (msgAt 7 5)) = Inr stateBad
   \<and> fst (initialize sampleCapabilities (mkSource 100
        [[Decoded (ChannelRecord channelBad)], [Decoded (MessageRecord (msgAt 8 5))]]))
       = Inl (NoPriorChannelInfo 8)"
proof -
  have unreg: "map_of (channelInfoById stateBad) (msg_channelId (msgAt k 5)) = None
                \<or> map_of (messagesByChannel stateBad) (msg_channelId (msgAt k 5)) = None" for k
    by (simp add: stateBad_def initialIngest_def)
  have dropped: "processRecord sampleCapabilities stateBad (MessageRecord (msgAt 7 5)) = Inr stateBad"
    using message_without_channel [OF ingest_channelBad unreg [of 7]]
    by (simp add: stateBad_def msgAt_def del: processRecord.simps)
  let ?src = "mkSource 100
        [[Decoded (ChannelRecord channelBad)], [Decoded (MessageRecord (msgAt 8 5))]]"
  have "concat (pending (options_stream ?src))
          = [Decoded (ChannelRecord channelBad)] @ Decoded (MessageRecord (msgAt 8 5)) # []"
       "options_size ?src \<le> 1024 * 1024 * 1024"
       "loadDecompressHandlers sampleCapabilities = Inr ()"
       "msg_channelId (msgAt 8 5) \<notin> channelIdsWithErrors stateBad"
    by (simp_all add: mkSource_def sampleCapabilities_def stateBad_def msgAt_def)
  with message_without_channel [OF ingest_channelBad unreg [of 8], of "[]"]
  have "fst (initialize sampleCapabilities ?src) = Inl (NoPriorChannelInfo (msg_channelId (msgAt 8 5)))"
    by blast
  with dropped show ?thesis by (simp add: msgAt_def)
qed

subsection \<open>Errored channels\<close>

text \<open>
  C10. Once a channel id is in the errored set of a state reached by ingestion, a Channel
  record with that id is skipped: the state is returned as it was, whatever the content
  of the record, so no differing-channel-infos error is thrown. This holds in every state
  reached later in the file as well, where the id is still errored and still has no
  channel info: the channel never becomes registered.
\<close>

theorem errored_channel_stays_unregistered:
  assumes pre: "processChunk env initialIngest pre = Inr st"
    and err: "channel_id c \<in> channelIdsWithErrors st"
  shows "processRecord env st (ChannelRecord c) = Inr st
       \<and> (\<forall>post st' c'. processChunk env st post = Inr st' \<longrightarrow> channel_id c' = channel_id c \<longrightarrow>
             processRecord env st' (ChannelRecord c') = Inr st'
             \<and> map_of (channelInfoById st') (channel_id c) = None
             \<and> channel_id c \<in> channelIdsWithErrors st')"
proof -
  have skip: "processRecord env s (ChannelRecord c') = Inr s
              \<and> map_of (channelInfoById s) (channel_id c) = None"
    if "registryInv s" "channel_id c \<in> channelIdsWithErrors s" "channel_id c' = channel_id c"
    for s c'
    using that by (auto simp: registryInv_def)
  have inv: "registryInv st"
    using reachable_invs [OF pre] by simp
  show ?thesis
  proof (intro conjI allI impI)
    show "processRecord env st (ChannelRecord c) = Inr st"
      using skip [OF inv err refl] by blast
  next
    fix post st' and c' :: Channel
    assume post: "processChunk env st post = Inr st'" and same: "channel_id c' = channel_id c"
    have "processChunk env initialIngest (pre @ post) = Inr st'"
      by (simp add: processChunk_append pre post)
    then have inv': "registryInv st'"
      using reachable_invs by blast
    have err': "channel_id c \<in> channelIdsWithErrors st'"
      using processChunk_errored_mono [OF post err] .
    from skip [OF inv' err' same]
    show "processRecord env st' (ChannelRecord c') = Inr st'"
      "map_of (channelInfoById st') (channel_id c) = None" by blast+
    show "channel_id c \<in> channelIdsWithErrors st'" by (rule err')
  qed
qed


theorem errored_channel_stays_unregistered_witness:
  "processRecord sampleCapabilities stateBad
      (ChannelRecord (channelBad\<lparr>channel_topic := ''/other''\<rparr>)) = Inr stateBad
   \<and> map_of (channelInfoById stateBad) 7 = None
   \<and> 7 \<in> channelIdsWithErrors stateBad"
proof -
  have err: "channel_id channelBad \<in> channelIdsWithErrors stateBad"
    by (simp add: stateBad_def channelBad_def)
  have post: "processChunk sampleCapabilities stateBad [] = Inr stateBad" by simp
  have same: "channel_id (channelBad\<lparr>channel_topic := ''/other''\<rparr>) = channel_id channelBad"
    by simp
  from errored_channel_stays_unregistered [OF ingest_channelBad err] post same
  have "processRecord sampleCapabilities stateBad
          (ChannelRecord (channelBad\<lparr>channel_topic := ''/other''\<rparr>)) = Inr stateBad
        \<and> map_of (channelInfoById stateBad) (channel_id channelBad) = None
        \<and> channel_id channelBad \<in> channelIdsWithErrors stateBad"
    by blast
  then show ?thesis by (simp add: channelBad_def)
qed

subsection \<open>Backfill\<close>

lemma set_update_subset: "set (AList.update k v al) \<subseteq> insert (k, v) (set al)"
  by (induction al) auto

lemma backfill_foldl_values:
  assumes "\<forall>ev\<in>snd ` set acc. compare (receiveTime ev) (backfill_time args) \<le> 0
              \<and> topic ev \<in> backfill_topics args"
  shows "\<forall>ev\<in>snd ` set (foldl (backfillStep args) acc evs).
           compare (receiveTime ev) (backfill_time args) \<le> 0 \<and> topic ev \<in> backfill_topics args"
  using assms
proof (induction evs arbitrary: acc)
  case Nil
  then show ?case by simp
next
  case (Cons e evs)
  have "\<forall>ev\<in>snd ` set (backfillStep args acc e).
          compare (receiveTime ev) (backfill_time args) \<le> 0 \<and> topic ev \<in> backfill_topics args"
    using Cons.prems set_update_subset [of "topic e" e acc]
    by (auto simp: backfillStep_def)
  from Cons.IH [OF this] show ?case by simp
qed

text \<open>
  C7. On an initialized source \<^verbatim>\<open>getBackfillMessages\<close> returns, and no event it returns has
  a receive time greater than the query time; each is on a requested topic.
\<close>

theorem backfill_never_after_query_time:
  assumes "initialize env src0 = (Inr init, src)"
  shows "\<exists>evs. getBackfillMessages src args = (Inr evs, src)
           \<and> (\<forall>ev\<in>set evs. \<not> compare (receiveTime ev) (backfill_time args) > 0
                             \<and> topic ev \<in> backfill_topics args)"
proof -
  from initialize_success [OF assms] obtain st :: Ingest where
    "msgEventsByChannel src = Some (messagesByChannel st)" by blast
  then show ?thesis
    using backfill_foldl_values [of "[]" args "concat (map snd (messagesByChannel st))"]
    by (fastforce simp: getBackfillMessages_def)
qed

theorem backfill_never_after_query_time_witness:
  "fst (getBackfillMessages sourceA \<lparr>backfill_topics = {''/a''}, backfill_time = fromNanoSec 4\<rparr>)
     = Inr [eventA 3]
   \<and> \<not> compare (receiveTime (eventA 3)) (fromNanoSec 4) > 0"
proof -
  let ?args = "\<lparr>backfill_topics = {''/a''}, backfill_time = fromNanoSec 4\<rparr>"
  have run: "getBackfillMessages sourceA ?args = (Inr [eventA 3], sourceA)"
    by (simp add: getBackfillMessages_def sourceA_def backfillStep_def eventA_def
          fromNanoSec_def compare_def)
  from backfill_never_after_query_time [OF initialize_fileA, of ?args]
  have "\<forall>ev\<in>set [eventA 3]. \<not> compare (receiveTime ev) (backfill_time ?args) > 0"
    by (auto simp: run)
  with run show ?thesis by simp
qed

text \<open>
  C2. The claim asks for the event with the latest receive time at or before the query
  time. The scan keeps, for each topic, the last qualifying event in scan order, whatever
  its time: on the example file, whose bucket holds the events at 5, 1 and 3 nanoseconds
  in file order, a query at 10 nanoseconds returns the event at 3 nanoseconds, although
  the event at 5 nanoseconds qualifies and is later.
\<close>

theorem backfill_returns_last_scanned:
  "initialize sampleCapabilities (mkSource 100 fileA)
     = (Inr (finish sampleCapabilities stateA3), sourceA)
   \<and> msgEventsByChannel sourceA = Some [(1, [eventA 5, eventA 1, eventA 3])]
   \<and> fst (getBackfillMessages sourceA
            \<lparr>backfill_topics = {''/a''}, backfill_time = fromNanoSec 10\<rparr>) = Inr [eventA 3]
   \<and> compare (receiveTime (eventA 5)) (fromNanoSec 10) \<le> 0
   \<and> compare (receiveTime (eventA 3)) (receiveTime (eventA 5)) < 0"
  by (simp add: initialize_fileA getBackfillMessages_def sourceA_def backfillStep_def eventA_def
        fromNanoSec_def compare_def)

subsection \<open>The iterator leaves the source as it found it\<close>

text \<open>
  C8. On an initialized source \<^verbatim>\<open>messageIterator\<close> returns a sequence and leaves the source
  object as it was; the same call on the object it left returns the same sequence.
\<close>

theorem messageIterator_idempotent:
  assumes "initialize env src0 = (Inr init, src)"
  shows "\<exists>out. messageIterator src args = (Inr out, src)
           \<and> messageIterator (snd (messageIterator src args)) args = (Inr out, src)"
proof -
  from initialize_success [OF assms] obtain st :: Ingest where
    "msgEventsByChannel src = Some (messagesByChannel st)"
    "src_start src = Some (init_start init)" "src_end src = Some (init_end init)" by blast
  then show ?thesis
    by (auto simp: messageIterator_def Let_def split: option.splits)
qed

theorem messageIterator_idempotent_witness:
  "messageIterator sourceA \<lparr>iter_topics = {''/a''}, iter_start = None, iter_end = None\<rparr>
     = (Inr [\<lparr>connectionId = 1, msgEvent = eventA 1\<rparr>,
             \<lparr>connectionId = 1, msgEvent = eventA 3\<rparr>,
             \<lparr>connectionId = 1, msgEvent = eventA 5\<rparr>], sourceA)
   \<and> messageIterator
        (snd (messageIterator sourceA \<lparr>iter_topics = {''/a''}, iter_start = None, iter_end = None\<rparr>))
        \<lparr>iter_topics = {''/a''}, iter_start = None, iter_end = None\<rparr>
     = (Inr [\<lparr>connectionId = 1, msgEvent = eventA 1\<rparr>,
             \<lparr>connectionId = 1, msgEvent = eventA 3\<rparr>,
             \<lparr>connectionId = 1, msgEvent = eventA 5\<rparr>], sourceA)"
proof -
  let ?args = "\<lparr>iter_topics = {''/a''}, iter_start = None, iter_end = None\<rparr>"
  have run: "messageIterator sourceA ?args
     = (Inr [\<lparr>connectionId = 1, msgEvent = eventA 1\<rparr>,
             \<lparr>connectionId = 1, msgEvent = eventA 3\<rparr>,
             \<lparr>connectionId = 1, msgEvent = eventA 5\<rparr>], sourceA)"
    by (simp add: messageIterator_def sourceA_def scanChannel_def eventA_def sortBy_def
          compareResults_def isTimeInRangeInclusive_def compare_def)
  from messageIterator_idempotent [OF initialize_fileA, of ?args] run
  show ?thesis by auto
qed

subsection \<open>Per-topic statistics\<close>

lemma summarizeChannel_topicStats_other:
  "channel_topic (channel info) \<noteq> T \<Longrightarrow>
   map_of (sum_topicStats (summarizeChannel bc acc info)) T = map_of (sum_topicStats acc) T"
  by (simp add: summarizeChannel_def Let_def update_conv' split: option.splits)

lemma summarizeChannel_topicStats_same:
  "map_of bc (channel_id (channel info)) = Some msgs \<Longrightarrow>
   map_of (sum_topicStats (summarizeChannel bc acc info)) (channel_topic (channel info))
     = Some (length msgs)"
  by (simp add: summarizeChannel_def Let_def update_conv')

lemma foldl_topicStats_other:
  "\<forall>info\<in>set infos. channel_topic (channel info) \<noteq> T \<Longrightarrow>
   map_of (sum_topicStats (foldl (summarizeChannel bc) acc infos)) T
     = map_of (sum_topicStats acc) T"
  by (induction infos arbitrary: acc) (simp_all add: summarizeChannel_topicStats_other)

lemma foldl_topicStats_last:
  assumes "map_of bc (channel_id (channel info)) = Some msgs"
    and "\<forall>i\<in>set after. channel_topic (channel i) \<noteq> channel_topic (channel info)"
  shows "map_of (sum_topicStats (foldl (summarizeChannel bc) acc (before @ info # after)))
           (channel_topic (channel info)) = Some (length msgs)"
  using assms
  by (simp add: foldl_topicStats_other summarizeChannel_topicStats_same)

text \<open>
  C9. Let two channels be registered at the end of a successful ingestion, \<open>i\<close> before \<open>j\<close>
  in registration order, both on the topic \<open>T\<close>, with no channel on \<open>T\<close> registered after
  \<open>j\<close>. Then their ids differ, and the entry of \<open>T\<close> in the per-topic statistics that
  \<^verbatim>\<open>initialize\<close> returns is the number of messages in the bucket of \<open>j\<close> alone: each channel
  overwrites the entry of its topic, so the last one enumerated wins and nothing is summed.
\<close>

theorem topicStats_last_channel_wins:
  assumes init: "initialize env src = (Inr init, src')"
    and st: "processChunk env initialIngest (concat (pending (options_stream src))) = Inr st"
    and reg: "channelInfoById st = before @ (i, ci) # mid @ (j, cj) # after"
    and topics: "channel_topic (channel ci) = T" "channel_topic (channel cj) = T"
    and last: "\<forall>info\<in>snd ` set after. channel_topic (channel info) \<noteq> T"
  shows "i \<noteq> j
       \<and> (\<exists>msgs. map_of (messagesByChannel st) j = Some msgs
             \<and> msgEventsByChannel src' = Some (messagesByChannel st)
             \<and> map_of (init_topicStats init) T = Some (length msgs))"
proof -
  from initialize_success [OF init] st
  have fin: "init = finish env st" and src': "msgEventsByChannel src' = Some (messagesByChannel st)"
    by auto
  have inv: "registryInv st" using reachable_invs [OF st] by simp
  then have dist: "distinct (map fst (channelInfoById st))"
    by (simp add: registryInv_def)
  from dist have ij: "i \<noteq> j" by (auto simp: reg)
  have "(j, cj) \<in> set (channelInfoById st)" by (simp add: reg)
  with dist have cj: "map_of (channelInfoById st) j = Some cj" by simp
  with inv have idj: "channel_id (channel cj) = j"
    unfolding registryInv_def by blast
  from inv cj obtain msgs where msgs: "map_of (messagesByChannel st) j = Some msgs"
    unfolding registryInv_def by (metis option.exhaust option.distinct(1))
  have infos: "map snd (channelInfoById st) = (map snd before @ ci # map snd mid) @ cj # map snd after"
    by (simp add: reg)
  have "map_of (sum_topicStats (summarize st)) (channel_topic (channel cj)) = Some (length msgs)"
    unfolding summarize_def infos
    by (rule foldl_topicStats_last) (use msgs idj last topics in auto)
  then have "map_of (init_topicStats init) T = Some (length msgs)"
    by (simp add: fin finish_def Let_def topics)
  with ij msgs src' show ?thesis by blast
qed

lemma ingest_fileTwo:
  "processChunk sampleCapabilities initialIngest (concat fileTwo) = Inr stateTwo"
  by (simp add: fileTwo_def sampleCapabilities_def initialIngest_def channelA_def channelA2_def
        schemaA_def stateTwo_def infoA_def msgAt_def eventA_def makeMessageEvent_def
        fromNanoSec_def isLessThan_def isGreaterThan_def compare_def Let_def)

lemma initialize_fileTwo:
  "fst (initialize sampleCapabilities (mkSource 100 fileTwo))
     = Inr (finish sampleCapabilities stateTwo)"
  using ingest_fileTwo
  by (simp add: initialize_fst mkSource_def sampleCapabilities_def del: processChunk.simps)

theorem topicStats_last_channel_wins_witness:
  "fst (initialize sampleCapabilities (mkSource 100 fileTwo))
     = Inr (finish sampleCapabilities stateTwo)
   \<and> map_of (messagesByChannel stateTwo) 1 = Some [eventA 5, eventA 1]
   \<and> map_of (messagesByChannel stateTwo) 2 = Some [eventA 3]
   \<and> map_of (init_topicStats (finish sampleCapabilities stateTwo)) ''/a'' = Some 1"
proof -
  let ?src = "mkSource 100 fileTwo"
  have init: "initialize sampleCapabilities ?src
      = (Inr (finish sampleCapabilities stateTwo), snd (initialize sampleCapabilities ?src))"
    using initialize_fileTwo by (cases "initialize sampleCapabilities ?src") simp
  have st: "processChunk sampleCapabilities initialIngest
              (concat (pending (options_stream ?src))) = Inr stateTwo"
    using ingest_fileTwo by (simp add: mkSource_def)
  have reg: "channelInfoById stateTwo
      = [] @ (1, infoA) # [] @ (2, infoA\<lparr>channel := channelA2\<rparr>) # []"
    by (simp add: stateTwo_def)
  have topics: "channel_topic (channel infoA) = ''/a''"
    "channel_topic (channel (infoA\<lparr>channel := channelA2\<rparr>)) = ''/a''"
    by (simp_all add: infoA_def channelA_def channelA2_def)
  have last: "\<forall>info\<in>snd ` set ([] :: (nat \<times> ChannelInfo) list).
                channel_topic (channel info) \<noteq> ''/a''"
    by simp
  from topicStats_last_channel_wins [OF init st reg topics last]
  obtain msgs where "map_of (messagesByChannel stateTwo) 2 = Some msgs"
    "map_of (init_topicStats (finish sampleCapabilities stateTwo)) ''/a'' = Some (length msgs)"
    by blast
  moreover from this(1) have "msgs = [eventA 3]"
    by (simp add: stateTwo_def)
  ultimately have "map_of (init_topicStats (finish sampleCapabilities stateTwo)) ''/a'' = Some 1"
    by simp
  moreover have "map_of (messagesByChannel stateTwo) 1 = Some [eventA 5, eventA 1]"
    "map_of (messagesByChannel stateTwo) 2 = Some [eventA 3]"
    by (simp_all add: stateTwo_def)
  ultimately show ?thesis
    using initialize_fileTwo by blast
qed

subsection \<open>The iterator\<close>

lemma scan_is_filter:
  "concat (map (scanChannel topics s e) bs) = filter (wanted topics s e) (bucketEvents bs)"
  by (induction bs) (simp_all add: scanChannel_def bucketEvents_def wanted_def filter_map o_def)

lemma bucketEvents_update_append:
  "map_of bs k = Some msgs \<Longrightarrow>
   mset (bucketEvents (AList.update k (msgs @ [ev]) bs))
     = add_mset \<lparr>connectionId = k, msgEvent = ev\<rparr> (mset (bucketEvents bs))"
  by (induction bs) (auto simp: bucketEvents_def)

lemma bucketEvents_update_new:
  "map_of bs k = None \<Longrightarrow> bucketEvents (AList.update k [] bs) = bucketEvents bs"
  by (induction bs) (auto simp: bucketEvents_def)

lemma set_bucketEvents:
  "r \<in> set (bucketEvents bs) \<Longrightarrow>
     \<exists>es. (connectionId r, es) \<in> set bs \<and> msgEvent r \<in> set es"
  by (induction bs) (auto simp: bucketEvents_def)

lemma processRecord_events:
  assumes step: "processRecord env st r = Inr st1" and inv: "registryInv st"
  shows "mset (bucketEvents (messagesByChannel st1))
           = mset (bucketEvents (messagesByChannel st)) + mset (ingestedEvent st1 (Decoded r))"
proof (cases r)
  case (ChannelRecord c)
  with step inv show ?thesis
    by (auto simp: Let_def registryInv_def bucketEvents_update_new
          simp del: map_of_eq_Some_iff split: option.splits if_splits sum.splits)
next
  case (MessageRecord m)
  from processRecord_Message_Inr [OF step [unfolded MessageRecord]] inv
  show ?thesis
    by (auto simp: MessageRecord bucketEvents_update_append registryInv_def
          simp del: map_of_eq_Some_iff)
qed (use step in \<open>auto split: option.splits if_splits\<close>)

lemma processChunk_registryInv:
  "processChunk env st items = Inr st' \<Longrightarrow> registryInv st \<Longrightarrow> registryInv st'"
proof (induction env st items rule: processChunk.induct)
  case (3 env st r rest)
  then obtain st1 where st1: "processRecord env st r = Inr st1"
    "processChunk env st1 rest = Inr st'"
    by (auto split: sum.splits)
  from processRecord_registryInv [OF st1(1) "3.prems"(2)] "3.IH" st1 show ?case by simp
qed simp_all

lemma ingestedEvent_stable:
  assumes step: "processRecord env st r = Inr st1"
    and rest: "processChunk env st1 rest = Inr st'"
    and inv: "registryInv st"
  shows "ingestedEvent st' (Decoded r) = ingestedEvent st1 (Decoded r)"
proof (cases r)
  case (MessageRecord m)
  have inv1: "registryInv st1" using processRecord_registryInv [OF step inv] .
  have inv': "registryInv st'" using processChunk_registryInv [OF rest inv1] .
  show ?thesis
  proof (cases "map_of (channelInfoById st1) (msg_channelId m)")
    case (Some info)
    from processChunk_info_persists [OF rest Some] Some show ?thesis
      by (simp add: MessageRecord)
  next
    case None
    from processRecord_Message_Inr [OF step [unfolded MessageRecord]] None
    have "msg_channelId m \<in> channelIdsWithErrors st1" by auto
    from processChunk_errored_mono [OF rest this] inv'
    have "map_of (channelInfoById st') (msg_channelId m) = None"
      unfolding registryInv_def by blast
    with None show ?thesis by (simp add: MessageRecord)
  qed
qed simp_all

lemma processChunk_events:
  "processChunk env st items = Inr st' \<Longrightarrow> registryInv st \<Longrightarrow>
   mset (bucketEvents (messagesByChannel st'))
     = mset (bucketEvents (messagesByChannel st)) + mset (ingestedEvents st' items)"
proof (induction env st items rule: processChunk.induct)
  case (1 env st)
  then show ?case by (simp add: ingestedEvents_def)
next
  case (2 env st m rest)
  then show ?case by simp
next
  case (3 env st r rest)
  then obtain st1 where st1: "processRecord env st r = Inr st1"
    "processChunk env st1 rest = Inr st'"
    by (auto split: sum.splits)
  have inv1: "registryInv st1" using processRecord_registryInv [OF st1(1) "3.prems"(2)] .
  have "mset (bucketEvents (messagesByChannel st'))
          = mset (bucketEvents (messagesByChannel st1)) + mset (ingestedEvents st' rest)"
    using "3.IH" [OF st1(1) st1(2) inv1] .
  also have "mset (bucketEvents (messagesByChannel st1))
          = mset (bucketEvents (messagesByChannel st)) + mset (ingestedEvent st1 (Decoded r))"
    using processRecord_events [OF st1(1) "3.prems"(2)] .
  also have "ingestedEvent st1 (Decoded r) = ingestedEvent st' (Decoded r)"
    using ingestedEvent_stable [OF st1 "3.prems"(2)] by simp
  finally show ?case by (simp add: ingestedEvents_def)
qed

lemma buckets_are_ingested:
  assumes "processChunk env initialIngest items = Inr st"
  shows "mset (bucketEvents (messagesByChannel st)) = mset (ingested env items)"
  using processChunk_events [OF assms registryInv_initial] assms
  by (simp add: ingested_def initialIngest_def bucketEvents_def)

lemma foldl_sum_topics:
  "map topic_name (sum_topics (foldl (summarizeChannel bc) acc infos))
     = map topic_name (sum_topics acc) @ map (\<lambda>info. channel_topic (channel info)) infos"
  by (induction infos arbitrary: acc) (simp_all add: summarizeChannel_def Let_def)

lemma finish_topics:
  "map topic_name (init_topics (finish env st))
     = map (\<lambda>info. channel_topic (channel info)) (map snd (channelInfoById st))"
  by (simp add: finish_def Let_def summarize_def foldl_sum_topics emptySummary_def)

lemma bucket_event_wanted:
  assumes reg: "registryInv st" and inv: "bucketsInv st"
    and r: "r \<in> set (bucketEvents (messagesByChannel st))"
  shows "topic (msgEvent r) \<in> topic_name ` set (init_topics (finish env st))
       \<and> isTimeInRangeInclusive (receiveTime (msgEvent r))
            (init_start (finish env st)) (init_end (finish env st))"
proof -
  from r obtain es where es: "(connectionId r, es) \<in> set (messagesByChannel st)"
    "msgEvent r \<in> set es"
    by (auto dest: set_bucketEvents)
  from reg have "distinct (map fst (messagesByChannel st))" by (simp add: registryInv_def)
  with es(1) have "map_of (messagesByChannel st) (connectionId r) = Some es" by simp
  with inv es(2) obtain info s e where
    info: "map_of (channelInfoById st) (connectionId r) = Some info"
      "topic (msgEvent r) = channel_topic (channel info)" and
    se: "startTime st = Some s" "endTime st = Some e"
      "compare s (receiveTime (msgEvent r)) \<le> 0" "compare (receiveTime (msgEvent r)) e \<le> 0"
    unfolding bucketsInv_def by blast
  from info(1) have "info \<in> snd ` set (channelInfoById st)"
    by (force dest: map_of_SomeD)
  then have "channel_topic (channel info) \<in> set (map topic_name (init_topics (finish env st)))"
    unfolding finish_topics by auto
  then have "topic (msgEvent r) \<in> topic_name ` set (init_topics (finish env st))"
    by (simp add: info(2))
  moreover have "\<not> compare e (receiveTime (msgEvent r)) < 0"
    using se(4) by (auto simp: compare_def Let_def split: if_splits)
  then have "isTimeInRangeInclusive (receiveTime (msgEvent r))
            (init_start (finish env st)) (init_end (finish env st))"
    using se by (simp add: finish_bounds isTimeInRangeInclusive_def)
  ultimately show ?thesis by simp
qed


lemma messageIterator_initialized:
  assumes "msgEventsByChannel src = Some bs" "src_start src = Some s0" "src_end src = Some e0"
  shows "messageIterator src args =
    (Inr (if iter_topics args = {} then []
          else sortBy compareResults
                 (filter (wanted (iter_topics args)
                            (case iter_start args of Some t \<Rightarrow> t | None \<Rightarrow> s0)
                            (case iter_end args of Some t \<Rightarrow> t | None \<Rightarrow> e0))
                    (bucketEvents bs))),
     src)"
  using assms by (simp add: messageIterator_def scan_is_filter Let_def split: option.splits)

lemma wanted_in_range:
  "wanted topics s e r \<Longrightarrow>
   compare s (receiveTime (msgEvent r)) \<le> 0 \<and> compare (receiveTime (msgEvent r)) e \<le> 0
   \<and> topic (msgEvent r) \<in> topics"
  using compare_flip [of e "receiveTime (msgEvent r)"]
  by (auto simp: wanted_def isTimeInRangeInclusive_def split: if_splits)

text \<open>
  C1. On a source that \<^verbatim>\<open>initialize\<close> has completed: called with a topic set that contains
  every topic of the returned topic list and with no start and no end,
  \<^verbatim>\<open>messageIterator\<close> yields the ingested message events of the file, each exactly once
  (the same multiset), in non-decreasing order of receive time. Called with any
  arguments, with the start and end defaulting to the bounds \<^verbatim>\<open>initialize\<close> returned, it
  yields in that order exactly the ingested events whose receive time lies within
  [start, end] and whose topic is requested: every yielded event is within the range,
  both ends included, and on a requested topic.
\<close>

theorem messageIterator_complete_sorted_in_range:
  assumes init: "initialize env src = (Inr init, src')"
  shows
    "(\<forall>topics. topic_name ` set (init_topics init) \<subseteq> topics \<longrightarrow>
        (\<exists>out. messageIterator src' \<lparr>iter_topics = topics, iter_start = None, iter_end = None\<rparr>
                  = (Inr out, src')
           \<and> mset out = mset (ingested env (concat (pending (options_stream src))))
           \<and> sorted_wrt (\<lambda>a b. compare (receiveTime (msgEvent a)) (receiveTime (msgEvent b)) \<le> 0)
                out))
   \<and> (\<forall>args. \<exists>out s e. messageIterator src' args = (Inr out, src')
           \<and> s = (case iter_start args of Some t \<Rightarrow> t | None \<Rightarrow> init_start init)
           \<and> e = (case iter_end args of Some t \<Rightarrow> t | None \<Rightarrow> init_end init)
           \<and> sorted_wrt (\<lambda>a b. compare (receiveTime (msgEvent a)) (receiveTime (msgEvent b)) \<le> 0)
                out
           \<and> mset out = filter_mset (wanted (iter_topics args) s e)
                           (mset (ingested env (concat (pending (options_stream src)))))
           \<and> (\<forall>r\<in>set out. compare s (receiveTime (msgEvent r)) \<le> 0
                  \<and> compare (receiveTime (msgEvent r)) e \<le> 0
                  \<and> topic (msgEvent r) \<in> iter_topics args))"
proof -
  let ?items = "concat (pending (options_stream src))"
  let ?le = "\<lambda>a b. compare (receiveTime (msgEvent a)) (receiveTime (msgEvent b)) \<le> 0"
  from initialize_success [OF init] obtain st where
    st: "processChunk env initialIngest ?items = Inr st" and
    fin: "init = finish env st" and
    src': "msgEventsByChannel src' = Some (messagesByChannel st)"
      "src_start src' = Some (init_start init)" "src_end src' = Some (init_end init)"
    by blast
  let ?B = "bucketEvents (messagesByChannel st)"
  have invs: "registryInv st" "bucketsInv st"
    using reachable_invs [OF st] by simp_all
  have B: "mset ?B = mset (ingested env ?items)"
    using buckets_are_ingested [OF st] .
  have sorted: "sorted_wrt ?le (sortBy compareResults xs)" for xs
    using sorted_sortBy_compareResults [of xs] by (simp add: compareResults_def)
  have run: "\<exists>out. messageIterator src' args = (Inr out, src')
       \<and> sorted_wrt ?le out
       \<and> mset out = mset (filter (wanted (iter_topics args)
                            (case iter_start args of Some t \<Rightarrow> t | None \<Rightarrow> init_start init)
                            (case iter_end args of Some t \<Rightarrow> t | None \<Rightarrow> init_end init)) ?B)"
    for args
  proof (cases "iter_topics args = {}")
    case True
    then have "filter (wanted (iter_topics args) s e) ?B = []" for s e
      by (simp add: wanted_def)
    with True show ?thesis
      by (simp add: messageIterator_initialized [OF src'])
  next
    case False
    then show ?thesis
      by (simp add: messageIterator_initialized [OF src'] sorted mset_sortBy)
  qed
  have all_wanted: "wanted topics (init_start init) (init_end init) r"
    if "topic_name ` set (init_topics init) \<subseteq> topics" "r \<in> set ?B" for topics r
    using bucket_event_wanted [OF invs that(2), of env] that(1)
    by (auto simp: wanted_def fin)
  show ?thesis
  proof (intro conjI allI impI)
    fix topics
    assume full: "topic_name ` set (init_topics init) \<subseteq> topics"
    have "filter (wanted topics (init_start init) (init_end init)) ?B = ?B"
      using all_wanted [OF full] by (simp add: filter_id_conv)
    with run [of "\<lparr>iter_topics = topics, iter_start = None, iter_end = None\<rparr>"] B
    show "\<exists>out. messageIterator src' \<lparr>iter_topics = topics, iter_start = None, iter_end = None\<rparr>
                  = (Inr out, src')
           \<and> mset out = mset (ingested env ?items) \<and> sorted_wrt ?le out"
      by auto
  next
    fix args :: MessageIteratorArgs
    let ?s = "case iter_start args of Some t \<Rightarrow> t | None \<Rightarrow> init_start init"
    let ?e = "case iter_end args of Some t \<Rightarrow> t | None \<Rightarrow> init_end init"
    from run [of args] obtain out where out: "messageIterator src' args = (Inr out, src')"
      "sorted_wrt ?le out" "mset out = mset (filter (wanted (iter_topics args) ?s ?e) ?B)"
      by blast
    have m: "mset out = filter_mset (wanted (iter_topics args) ?s ?e) (mset (ingested env ?items))"
      using out(3) B by simp
    have "set out = set (filter (wanted (iter_topics args) ?s ?e) ?B)"
      using out(3) by (rule mset_eq_setD)
    then have "\<forall>r\<in>set out. compare ?s (receiveTime (msgEvent r)) \<le> 0
                  \<and> compare (receiveTime (msgEvent r)) ?e \<le> 0
                  \<and> topic (msgEvent r) \<in> iter_topics args"
      using wanted_in_range by auto
    with out(1,2) m
    show "\<exists>out s e. messageIterator src' args = (Inr out, src')
           \<and> s = ?s \<and> e = ?e \<and> sorted_wrt ?le out
           \<and> mset out = filter_mset (wanted (iter_topics args) s e) (mset (ingested env ?items))
           \<and> (\<forall>r\<in>set out. compare s (receiveTime (msgEvent r)) \<le> 0
                  \<and> compare (receiveTime (msgEvent r)) e \<le> 0
                  \<and> topic (msgEvent r) \<in> iter_topics args)"
      by blast
  qed
qed

lemma ingested_fileA:
  "ingested sampleCapabilities (concat fileA)
     = [\<lparr>connectionId = 1, msgEvent = eventA 5\<rparr>, \<lparr>connectionId = 1, msgEvent = eventA 1\<rparr>,
        \<lparr>connectionId = 1, msgEvent = eventA 3\<rparr>]"
  unfolding ingested_def ingest_fileA
  by (simp add: ingestedEvents_def fileA_def stateA3_def stateA_def msgAt_def eventA_def
        makeMessageEvent_def infoA_def channelA_def fromNanoSec_def)

theorem messageIterator_complete_sorted_in_range_witness:
  "ingested sampleCapabilities (concat fileA)
     = [\<lparr>connectionId = 1, msgEvent = eventA 5\<rparr>, \<lparr>connectionId = 1, msgEvent = eventA 1\<rparr>,
        \<lparr>connectionId = 1, msgEvent = eventA 3\<rparr>]
   \<and> messageIterator sourceA \<lparr>iter_topics = {''/a''}, iter_start = None, iter_end = None\<rparr>
       = (Inr [\<lparr>connectionId = 1, msgEvent = eventA 1\<rparr>,
               \<lparr>connectionId = 1, msgEvent = eventA 3\<rparr>,
               \<lparr>connectionId = 1, msgEvent = eventA 5\<rparr>], sourceA)
   \<and> mset [\<lparr>connectionId = 1, msgEvent = eventA 1\<rparr>,
            \<lparr>connectionId = 1, msgEvent = eventA 3\<rparr>,
            \<lparr>connectionId = 1, msgEvent = eventA 5\<rparr>]
       = mset (ingested sampleCapabilities (concat fileA))
   \<and> messageIterator sourceA
        \<lparr>iter_topics = {''/a''}, iter_start = Some \<lparr>sec = 0, nsec = 2\<rparr>,
         iter_end = Some \<lparr>sec = 0, nsec = 5\<rparr>\<rparr>
       = (Inr [\<lparr>connectionId = 1, msgEvent = eventA 3\<rparr>,
               \<lparr>connectionId = 1, msgEvent = eventA 5\<rparr>], sourceA)"
proof -
  let ?all = "\<lparr>iter_topics = {''/a''}, iter_start = None, iter_end = None\<rparr>"
  let ?some = "\<lparr>iter_topics = {''/a''}, iter_start = Some \<lparr>sec = 0, nsec = 2\<rparr>,
         iter_end = Some \<lparr>sec = 0, nsec = 5\<rparr>\<rparr>"
  let ?sorted = "[\<lparr>connectionId = 1, msgEvent = eventA 1\<rparr>,
               \<lparr>connectionId = 1, msgEvent = eventA 3\<rparr>,
               \<lparr>connectionId = 1, msgEvent = eventA 5\<rparr>]"
  have full: "topic_name ` set (init_topics (finish sampleCapabilities stateA3)) \<subseteq> {''/a''}"
    using finish_topics [of sampleCapabilities stateA3]
    by (simp add: stateA3_def stateA_def infoA_def channelA_def flip: set_map)
  have items: "concat (pending (options_stream (mkSource 100 fileA))) = concat fileA"
    by (simp add: mkSource_def)
  from messageIterator_complete_sorted_in_range [OF initialize_fileA] full
  have "\<exists>out. messageIterator sourceA ?all = (Inr out, sourceA)
          \<and> mset out = mset (ingested sampleCapabilities (concat fileA))"
    unfolding items by blast
  then obtain out where out: "messageIterator sourceA ?all = (Inr out, sourceA)"
    "mset out = mset (ingested sampleCapabilities (concat fileA))"
    by blast
  have run1: "messageIterator sourceA ?all = (Inr ?sorted, sourceA)"
    by (simp add: messageIterator_def sourceA_def scanChannel_def eventA_def sortBy_def
          compareResults_def isTimeInRangeInclusive_def compare_def)
  from out(1) run1 have "out = ?sorted" by simp
  with out(2) have complete: "mset ?sorted = mset (ingested sampleCapabilities (concat fileA))"
    by (simp only:)
  have run2: "messageIterator sourceA ?some
       = (Inr [\<lparr>connectionId = 1, msgEvent = eventA 3\<rparr>,
               \<lparr>connectionId = 1, msgEvent = eventA 5\<rparr>], sourceA)"
    by (simp add: messageIterator_def sourceA_def scanChannel_def eventA_def sortBy_def
          compareResults_def isTimeInRangeInclusive_def compare_def)
  from ingested_fileA run1 complete run2 show ?thesis by blast
qed

end
